theory Spec2Isabelle
  imports Main "HOL-Library.Multiset"
begin

section \<open>Pane registry: reordering\<close>

text \<open>
  The registry is a Go slice of handle pointers. \<open>moveProc\<close> never looks inside a handle,
  so the model is polymorphic in the element type. Go's \<open>int\<close> indices are modelled as
  \<open>int\<close>; the function does no arithmetic on them, only comparisons.
\<close>

text \<open>
  The range loop of \<open>moveProc\<close>: it walks the slice with the running index \<open>i\<close> and
  appends every element except the one at index \<open>from\<close> to \<open>newOrder\<close>.
\<close>

fun moveProc_loop :: "'a list \<Rightarrow> int \<Rightarrow> int \<Rightarrow> 'a list \<Rightarrow> 'a list" where
  "moveProc_loop [] i from newOrder = newOrder"
| "moveProc_loop (p # ps) i from newOrder =
     (if i = from then moveProc_loop ps (i + 1) from newOrder
      else moveProc_loop ps (i + 1) from (newOrder @ [p]))"

definition moveProc :: "'a list \<Rightarrow> int \<Rightarrow> int \<Rightarrow> 'a list" where
  "moveProc procs from to =
     (if from < 0 \<or> from \<ge> int (length procs) \<or> to < 0 \<or> to \<ge> int (length procs) \<or> from = to
      then procs
      else
        let newOrder = moveProc_loop procs 0 from [] in
        if to \<ge> int (length newOrder) then newOrder @ [procs ! nat from]
        else take (nat to) newOrder @ ([procs ! nat from] @ drop (nat to) newOrder))"

text \<open>Specification vocabulary: the sequence without its element at position \<open>i\<close>.\<close>

definition without_index :: "nat \<Rightarrow> 'a list \<Rightarrow> 'a list" where
  "without_index i xs = take i xs @ drop (Suc i) xs"

section \<open>Processes, the operating system and the clock\<close>

text \<open>
  \<open>src/main.go\<close> holds two revisions of the program. The first (lines 1 to 307) has no
  reload and refuses an empty declaration list; the second (lines 308 to 741) adds
  \<open>Container\<close>, \<open>Argv\<close>, \<open>reloadProc\<close> and the display toggles. \<open>moveProc\<close>,
  \<open>killTree\<close>, \<open>focusedProcIndex\<close> and the body of \<open>startProc\<close> after the widget
  set-up are the same text in both. Where the revisions differ the definitions below carry
  the suffix \<open>_rev1\<close> or \<open>_rev2\<close>.
\<close>

datatype signal = SIGTERM | SIGKILL

text \<open>Widgets (\<open>*tview.TextView\<close>, \<open>*tview.Frame\<close>, \<open>*tview.Flex\<close>) are pointers; a
  pointer is modelled by the number of the allocation that made it.\<close>

type_synonym prim = nat

text \<open>The fields of \<open>exec.Cmd\<close> the program sets or reads. \<open>Process\<close> is \<open>None\<close> until
  \<open>Start\<close> succeeds. \<open>ProcessState\<close> is written by \<open>cmd.Wait()\<close> in another goroutine, so it
  is not a field here but a reading of the environment (\<open>exit_seen\<close> below).\<close>

record cmd =
  Args :: "string list"
  Dir_c :: string
  Env :: "string list"
  Setpgid :: bool
  Process :: "nat option"

record proc =
  Name :: string
  Dir :: string
  Cmd :: "cmd option"
  View :: prim
  Container :: "prim option"
  Follow :: bool
  Argv :: "string list"

record procSpec =
  Name_s :: string
  Dir_s :: string
  Cmd_s :: string
  Args_s :: "string list"
  Follow_s :: "bool option"

record procConfig =
  Processes :: "procSpec list"
  Borders :: bool
  Dividers :: bool

text \<open>
  Where \<open>startProc\<close> points its three goroutines. \<open>LockingWriter l v\<close> is
  \<open>&lockingWriter{w: tview.ANSIWriter(v)}\<close> with the mutex allocated as number \<open>l\<close>;
  \<open>ViewWriter v\<close> is the text view \<open>v\<close> used as an \<open>io.Writer\<close> directly.
\<close>

datatype writer = LockingWriter nat prim | ViewWriter prim

datatype stream = Stdout | Stderr

datatype goroutine =
    Copy stream nat writer
  | ExitNotice nat writer

text \<open>Effects, in the order the program performs them. Durations and instants are in
  nanoseconds, the unit of \<open>time.Duration\<close>.\<close>

datatype event =
    Kill int signal
  | Signal nat signal
  | ProcessKill nat
  | Sleep nat
  | Fprintf prim string
  | Fprintln_stderr string
  | Started cmd
  | Go goroutine
  | Clear prim
  | ScrollToBeginning prim
  | ScrollToEnd prim

definition Millisecond :: nat where
  "Millisecond = 1000000"

definition Second :: nat where
  "Second = 1000 * Millisecond"

text \<open>
  Everything the program does not decide: the platform, the process table, what the child
  processes do, how long a sleep really takes, whether a spawn succeeds.
  \<^item> \<open>getpgid pid\<close>: \<open>syscall.Getpgid\<close>, \<open>None\<close> for an error;
  \<^item> \<open>exit_seen c t\<close>: reading \<open>c.ProcessState != nil\<close> at instant \<open>t\<close>;
  \<^item> \<open>oversleep t\<close>: by how much a \<open>time.Sleep\<close> begun at \<open>t\<close> overruns its argument
    (\<open>time.Sleep\<close> pauses for at least the duration);
  \<^item> \<open>spawn c t\<close>: \<open>StdoutPipe\<close>, \<open>StderrPipe\<close> and \<open>Start\<close> of \<open>c\<close> at \<open>t\<close>, an error text
    or the new pid;
  \<^item> \<open>run_error\<close>: the error \<open>app.Run()\<close> returns, if any.
\<close>

record os =
  goos_windows :: bool
  environ :: "string list"
  getpgid :: "nat \<Rightarrow> nat option"
  exit_seen :: "cmd \<Rightarrow> nat \<Rightarrow> bool"
  oversleep :: "nat \<Rightarrow> nat"
  spawn :: "cmd \<Rightarrow> nat \<Rightarrow> string + nat"
  run_error :: "string option"

text \<open>The state the sequential code threads through: the clock, the time-stamped effects
  so far, and the allocation counter for mutexes and widgets. The clock moves only in
  \<open>time.Sleep\<close>; every other statement is taken to be instantaneous.\<close>

record world =
  now :: nat
  trace :: "(nat \<times> event) list"
  next_alloc :: nat

definition emit :: "event \<Rightarrow> world \<Rightarrow> world" where
  "emit e w = w\<lparr>trace := trace w @ [(now w, e)]\<rparr>"

definition sleep :: "os \<Rightarrow> nat \<Rightarrow> world \<Rightarrow> world" where
  "sleep os d w = (emit (Sleep d) w)\<lparr>now := now w + d + oversleep os (now w)\<rparr>"

definition alloc :: "world \<Rightarrow> nat \<times> world" where
  "alloc w = (next_alloc w, w\<lparr>next_alloc := Suc (next_alloc w)\<rparr>)"

definition killTree :: "os \<Rightarrow> proc \<Rightarrow> signal \<Rightarrow> world \<Rightarrow> world" where
  "killTree os p sig w =
     (case Cmd p of
        None \<Rightarrow> w
      | Some c \<Rightarrow>
          (case Process c of
             None \<Rightarrow> w
           | Some pid \<Rightarrow>
               if goos_windows os then emit (ProcessKill pid) w
               else (case getpgid os pid of
                       Some pgid \<Rightarrow> emit (Kill (- int pgid) sig) w
                     | None \<Rightarrow> emit (Signal pid sig) w)))"

datatype start_result = Panic | Error string | Ok

text \<open>
  \<open>startProc\<close>. The widget set-up at its head (title, border, wrapping, the changed
  callback) touches no state read below and is left out. \<open>command\<close> is
  \<open>exec.Command(argv[0], argv[1:]...)\<close> with \<open>Dir\<close>, \<open>Env\<close> and \<open>SysProcAttr\<close> assigned.
  \<open>argv[0]\<close> on an empty \<open>argv\<close> is a run-time panic. A failing \<open>StdoutPipe\<close>,
  \<open>StderrPipe\<close> or \<open>Start\<close> returns the error before \<open>p.Cmd\<close> is assigned and before any
  goroutine is started.
\<close>

definition command :: "os \<Rightarrow> proc \<Rightarrow> string list \<Rightarrow> cmd" where
  "command os p argv =
     \<lparr>Args = argv, Dir_c = Dir p,
      Env = environ os @ [''FORCE_COLOR=1'', ''CLICOLOR=1'', ''CLICOLOR_FORCE=1'',
                          ''TERM=xterm-256color''],
      Setpgid = (\<not> goos_windows os), Process = None\<rparr>"

definition startProc :: "os \<Rightarrow> proc \<Rightarrow> string list \<Rightarrow> world \<Rightarrow> start_result \<times> proc \<times> world" where
  "startProc os p argv w =
     (case argv of
        [] \<Rightarrow> (Panic, p, w)
      | a # as \<Rightarrow>
          let c = command os p (a # as)
          in (case spawn os c (now w) of
                Inl err \<Rightarrow> (Error err, p, w)
              | Inr pid \<Rightarrow>
                  let c' = c\<lparr>Process := Some pid\<rparr>;
                      w1 = emit (Started c') w;
                      (l, w2) = alloc w1;
                      lw = LockingWriter l (View p);
                      w3 = emit (Go (Copy Stdout pid lw)) w2;
                      w4 = emit (Go (Copy Stderr pid lw)) w3;
                      w5 = emit (Go (ExitNotice pid (ViewWriter (View p)))) w4
                  in (Ok, p\<lparr>Cmd := Some c'\<rparr>, w5)))"

text \<open>The polling loop of \<open>reloadProc\<close>:
  \<^verbatim>\<open>for time.Now().Before(deadline) { if p.Cmd.ProcessState != nil { break }; time.Sleep(50ms) }\<close>\<close>

function pollExit :: "os \<Rightarrow> cmd \<Rightarrow> nat \<Rightarrow> world \<Rightarrow> world" where
  "pollExit os c deadline w =
     (if now w < deadline then
        (if exit_seen os c (now w) then w
         else pollExit os c deadline (sleep os (50 * Millisecond) w))
      else w)"
  by pat_completeness auto
termination
  by (relation "measure (\<lambda>(os, c, deadline, w). deadline - now w)")
     (auto simp: sleep_def emit_def Millisecond_def)

declare pollExit.simps [simp del]

text \<open>The four notices \<open>reloadProc\<close> prints into the view with \<open>fmt.Fprintf\<close>.\<close>

definition msg_no_argv :: "proc \<Rightarrow> string" where
  "msg_no_argv p = [CHR 0x0A] @ ''['' @ Name p @ ''] reload: no argv to start'' @ [CHR 0x0A]"

definition msg_sigterm :: "proc \<Rightarrow> string" where
  "msg_sigterm p = [CHR 0x0A] @ ''['' @ Name p @ ''] reload: sending SIGTERM...'' @ [CHR 0x0A]"

definition msg_sigkill :: "proc \<Rightarrow> string" where
  "msg_sigkill p = ''['' @ Name p @ ''] reload: forcing SIGKILL...'' @ [CHR 0x0A]"

definition msg_starting :: "proc \<Rightarrow> string" where
  "msg_starting p = ''['' @ Name p @ ''] reload: starting...'' @ [CHR 0x0A]"

text \<open>
  \<open>reloadProc\<close>, in the blocks of the source. \<open>reload_polled\<close> is the notice, the
  \<open>SIGTERM\<close>, the deadline and the polling loop, up to the loop's end. \<open>reload_stop\<close> is
  the whole \<open>if p.Cmd != nil && p.Cmd.Process != nil { ... }\<close>: after the loop it reads
  \<open>ProcessState\<close> once more and, when it is still \<open>nil\<close>, prints a notice, sends
  \<open>SIGKILL\<close> and sleeps 150 ms. \<open>reloadProc\<close> then prints and calls \<open>startProc\<close>, whatever
  \<open>reload_stop\<close> saw, and drops the result of \<open>startProc\<close>.
\<close>

definition reload_polled :: "os \<Rightarrow> proc \<Rightarrow> cmd \<Rightarrow> world \<Rightarrow> world" where
  "reload_polled os p c w =
     (let wa = emit (Fprintf (View p) (msg_sigterm p)) w;
          wb = killTree os p SIGTERM wa;
          deadline = now wb + 2 * Second
      in pollExit os c deadline wb)"

definition reload_stop :: "os \<Rightarrow> proc \<Rightarrow> world \<Rightarrow> world" where
  "reload_stop os p w =
     (case Cmd p of
        None \<Rightarrow> w
      | Some c \<Rightarrow>
          (case Process c of
             None \<Rightarrow> w
           | Some pid \<Rightarrow>
               let wc = reload_polled os p c w
               in if \<not> exit_seen os c (now wc) then
                    sleep os (150 * Millisecond)
                      (killTree os p SIGKILL (emit (Fprintf (View p) (msg_sigkill p)) wc))
                  else wc))"

definition reloadProc :: "os \<Rightarrow> proc option \<Rightarrow> world \<Rightarrow> proc option \<times> world" where
  "reloadProc os po w =
     (case po of
        None \<Rightarrow> (None, w)
      | Some p \<Rightarrow>
          if length (Argv p) = 0 then
            (Some p, emit (Fprintf (View p) (msg_no_argv p)) w)
          else
            let w1 = reload_stop os p w;
                w2 = emit (Fprintf (View p) (msg_starting p)) w1;
                (r, p', w3) = startProc os p (Argv p) w2
            in (Some p', w3))"

section \<open>The pane registry, focus and the key handler\<close>

text \<open>\<open>focusedProcIndex\<close>: the first index whose view is the focused widget, else \<open>-1\<close>.
  \<open>app.GetFocus()\<close> may be \<open>nil\<close>, hence the \<open>option\<close>.\<close>

fun focusedProcIndex_loop :: "prim option \<Rightarrow> proc list \<Rightarrow> int \<Rightarrow> int" where
  "focusedProcIndex_loop f [] i = - 1"
| "focusedProcIndex_loop f (p # ps) i =
     (if Some (View p) = f then i else focusedProcIndex_loop f ps (i + 1))"

definition focusedProcIndex :: "prim option \<Rightarrow> proc list \<Rightarrow> int" where
  "focusedProcIndex f procs = focusedProcIndex_loop f procs 0"

text \<open>\<open>makeProcsFromSpecs\<close>: one fresh text view per declaration, in the second revision
  also a fresh frame around it and the argument vector kept in the handle. The first
  revision's \<open>Proc\<close> has neither field; they are \<open>None\<close> and \<open>[]\<close> there.\<close>

fun makeProcsFromSpecs_rev1_loop ::
  "procSpec list \<Rightarrow> proc list \<Rightarrow> string list list \<Rightarrow> world \<Rightarrow> proc list \<times> string list list \<times> world" where
  "makeProcsFromSpecs_rev1_loop [] procs argvs w = (procs, argvs, w)"
| "makeProcsFromSpecs_rev1_loop (s # ss) procs argvs w =
     (let follow = (case Follow_s s of None \<Rightarrow> True | Some b \<Rightarrow> b);
          (tv, w1) = alloc w;
          p = \<lparr>Name = Name_s s, Dir = Dir_s s, Cmd = None, View = tv, Container = None,
               Follow = follow, Argv = []\<rparr>;
          args = [Cmd_s s] @ Args_s s
      in makeProcsFromSpecs_rev1_loop ss (procs @ [p]) (argvs @ [args]) w1)"

definition makeProcsFromSpecs_rev1 ::
  "procSpec list \<Rightarrow> world \<Rightarrow> proc list \<times> string list list \<times> world" where
  "makeProcsFromSpecs_rev1 specs w = makeProcsFromSpecs_rev1_loop specs [] [] w"

fun makeProcsFromSpecs_rev2_loop ::
  "procSpec list \<Rightarrow> proc list \<Rightarrow> string list list \<Rightarrow> world \<Rightarrow> proc list \<times> string list list \<times> world" where
  "makeProcsFromSpecs_rev2_loop [] procs argvs w = (procs, argvs, w)"
| "makeProcsFromSpecs_rev2_loop (s # ss) procs argvs w =
     (let follow = (case Follow_s s of None \<Rightarrow> True | Some b \<Rightarrow> b);
          (tv, w1) = alloc w;
          (frame, w2) = alloc w1;
          args = [Cmd_s s] @ Args_s s;
          p = \<lparr>Name = Name_s s, Dir = Dir_s s, Cmd = None, View = tv, Container = Some frame,
               Follow = follow, Argv = args\<rparr>
      in makeProcsFromSpecs_rev2_loop ss (procs @ [p]) (argvs @ [args]) w2)"

definition makeProcsFromSpecs_rev2 ::
  "procSpec list \<Rightarrow> world \<Rightarrow> proc list \<times> string list list \<times> world" where
  "makeProcsFromSpecs_rev2 specs w = makeProcsFromSpecs_rev2_loop specs [] [] w"

text \<open>\<open>buildMainArea\<close> allocates the column and, in the second revision with
  \<open>useDividers\<close>, one spacer box between panes. It reads the registry and changes
  nothing in it. The first revision is the case \<open>useDividers = False\<close>.\<close>

fun buildMainArea_loop :: "bool \<Rightarrow> proc list \<Rightarrow> int \<Rightarrow> world \<Rightarrow> world" where
  "buildMainArea_loop useDividers [] i w = w"
| "buildMainArea_loop useDividers (p # ps) i w =
     buildMainArea_loop useDividers ps (i + 1)
       (if useDividers \<and> i > 0 then snd (alloc w) else w)"

definition buildMainArea :: "bool \<Rightarrow> proc list \<Rightarrow> world \<Rightarrow> prim \<times> world" where
  "buildMainArea useDividers procs w =
     (let (flex, w1) = alloc w in (flex, buildMainArea_loop useDividers procs 0 w1))"

text \<open>
  The variables the input-capture closure shares with \<open>main\<close>, and the application's
  focus and stop flag. Header rendering (\<open>renderHeader\<close>) is text formatting only and is
  left out.
\<close>

record app =
  app_procs :: "proc list"
  app_focus :: "prim option"
  app_stopped :: bool
  app_dividers :: bool
  app_mainArea :: prim
  app_root :: prim
  app_world :: world

datatype key = KeyTAB | KeyCtrlL | KeyCtrlC | KeyRune char

datatype revision = Rev1 | Rev2

text \<open>The rebuild after a move: a new column, a new root, \<open>app.SetRoot(root, true)\<close>, then
  \<open>app.SetFocus\<close> on the view now at index \<open>target\<close>.\<close>

definition rebuild :: "proc list \<Rightarrow> int \<Rightarrow> app \<Rightarrow> app" where
  "rebuild procs target a =
     (let (flex, w1) = buildMainArea (app_dividers a) procs (app_world a);
          (root, w2) = alloc w1
      in a\<lparr>app_procs := procs, app_mainArea := flex, app_root := root, app_world := w2,
           app_focus := Some (View (procs ! nat target))\<rparr>)"

text \<open>
  The function given to \<open>app.SetInputCapture\<close>. Every index it uses comes from
  \<open>focusedProcIndex\<close> and is checked against the length first, so \<open>procs[i]\<close> never
  panics (lemma \<open>focusedProcIndex_range\<close> below). The \<open>'r'\<close> case exists in the second revision only.
\<close>

definition handleKey :: "revision \<Rightarrow> os \<Rightarrow> key \<Rightarrow> app \<Rightarrow> app" where
  "handleKey rv os ev a =
     (let procs = app_procs a; idx = focusedProcIndex (app_focus a) procs in
      case ev of
        KeyTAB \<Rightarrow>
          if idx \<ge> 0 then
            let next = (idx + 1) mod int (length procs)
            in a\<lparr>app_focus := Some (View (procs ! nat next))\<rparr>
          else a
      | KeyCtrlL \<Rightarrow>
          if idx \<ge> 0 then a\<lparr>app_world := emit (Clear (View (procs ! nat idx))) (app_world a)\<rparr>
          else a
      | KeyCtrlC \<Rightarrow> a\<lparr>app_stopped := True\<rparr>
      | KeyRune r \<Rightarrow>
          if r = CHR ''q'' \<or> r = CHR ''Q'' then a\<lparr>app_stopped := True\<rparr>
          else if r = CHR ''f'' then
            (if idx \<ge> 0 then
               a\<lparr>app_procs := procs[nat idx := (procs ! nat idx)\<lparr>Follow := \<not> Follow (procs ! nat idx)\<rparr>]\<rparr>
             else a)
          else if r = CHR ''r'' \<and> rv = Rev2 then
            (if idx \<ge> 0 then
               (case reloadProc os (Some (procs ! nat idx)) (app_world a) of
                  (Some p', w') \<Rightarrow> a\<lparr>app_procs := procs[nat idx := p'], app_world := w'\<rparr>
                | (None, w') \<Rightarrow> a\<lparr>app_world := w'\<rparr>)
             else a)
          else if r = CHR ''g'' then
            (if idx \<ge> 0 then
               a\<lparr>app_world := emit (ScrollToBeginning (View (procs ! nat idx))) (app_world a)\<rparr>
             else a)
          else if r = CHR ''G'' then
            (if idx \<ge> 0 then
               a\<lparr>app_world := emit (ScrollToEnd (View (procs ! nat idx))) (app_world a)\<rparr>
             else a)
          else if r = CHR ''J'' then
            (if idx \<ge> 0 \<and> idx + 1 < int (length procs) then
               rebuild (moveProc procs idx (idx + 1)) (idx + 1) a
             else a)
          else if r = CHR ''K'' then
            (if idx > 0 then rebuild (moveProc procs idx (idx - 1)) (idx - 1) a
             else a)
          else a)"

text \<open>The event loop: keys are handled until \<open>app.Stop()\<close>. When the queue runs dry
  without a stop, the goroutine waiting for SIGINT or SIGTERM stops the application.\<close>

fun run :: "revision \<Rightarrow> os \<Rightarrow> key list \<Rightarrow> app \<Rightarrow> app" where
  "run rv os [] a = a\<lparr>app_stopped := True\<rparr>"
| "run rv os (k # ks) a = (if app_stopped a then a else run rv os ks (handleKey rv os k a))"

section \<open>Start-up, shutdown and \<open>main\<close>\<close>

text \<open>The start-up goroutine: \<open>for i := range procs { _ = startProc(app, procs[i], argvs[i]...) }\<close>.
  A spawn error is dropped; a panic (no \<open>argvs[i]\<close>, or an empty one) ends the loop, and
  the flag says so.\<close>

fun startAll :: "os \<Rightarrow> proc list \<Rightarrow> string list list \<Rightarrow> world \<Rightarrow> bool \<times> proc list \<times> world" where
  "startAll os [] argvs w = (False, [], w)"
| "startAll os (p # ps) [] w = (True, p # ps, w)"
| "startAll os (p # ps) (argv # argvs) w =
     (case startProc os p argv w of
        (Panic, p', w') \<Rightarrow> (True, p' # ps, w')
      | (r, p', w') \<Rightarrow>
          (case startAll os ps argvs w' of
             (panicked, ps', w'') \<Rightarrow> (panicked, p' # ps', w'')))"

text \<open>The two loops at the end of \<open>main\<close>, and the sleep between them.\<close>

fun killAll :: "os \<Rightarrow> signal \<Rightarrow> proc list \<Rightarrow> world \<Rightarrow> world" where
  "killAll os sig [] w = w"
| "killAll os sig (p # ps) w = killAll os sig ps (killTree os p sig w)"

definition shutdown :: "os \<Rightarrow> proc list \<Rightarrow> world \<Rightarrow> world" where
  "shutdown os procs w =
     killAll os SIGKILL procs (sleep os (2 * Second) (killAll os SIGTERM procs w))"

datatype exit = Return | Fatal string | Crash

text \<open>
  What follows the configuration check is the same in both revisions, up to the revision
  of the key handler. \<open>attach\<close> is \<open>mainArea := buildMainArea(procs)\<close>, the root and
  \<open>app.SetRoot(root, true)\<close>, after which the focus is on the column, which is no pane's
  view. \<open>startup\<close> is the start-up goroutine (120 ms, then every \<open>startProc\<close>). The
  goroutines run in one fixed order here: start-up first, then the keys. \<open>log.Fatal\<close>
  leaves the program at once, without the shutdown loops, and so does a panic.
\<close>

definition attach :: "bool \<Rightarrow> proc list \<Rightarrow> world \<Rightarrow> app" where
  "attach useDividers procs w =
     (let (mainArea, w1) = buildMainArea useDividers procs w;
          (root, w2) = alloc w1
      in \<lparr>app_procs = procs, app_focus = Some mainArea, app_stopped = False,
          app_dividers = useDividers, app_mainArea = mainArea, app_root = root,
          app_world = w2\<rparr>)"

definition startup :: "os \<Rightarrow> string list list \<Rightarrow> app \<Rightarrow> bool \<times> app" where
  "startup os argvs a =
     (case startAll os (app_procs a) argvs (sleep os (120 * Millisecond) (app_world a)) of
        (panicked, procs', w') \<Rightarrow> (panicked, a\<lparr>app_procs := procs', app_world := w'\<rparr>))"

definition supervise ::
  "revision \<Rightarrow> os \<Rightarrow> bool \<Rightarrow> proc list \<Rightarrow> string list list \<Rightarrow> key list \<Rightarrow> world \<Rightarrow> exit \<times> world" where
  "supervise rv os useDividers procs argvs keys w =
     (let a0 = attach useDividers procs w
      in case run_error os of
           Some err \<Rightarrow> (Fatal err, app_world a0)
         | None \<Rightarrow>
             (case startup os argvs a0 of
                (True, a1) \<Rightarrow> (Crash, app_world a1)
              | (False, a1) \<Rightarrow>
                  let a2 = run rv os keys a1
                  in (Return, shutdown os (app_procs a2) (app_world a2))))"

definition diagnostic :: string where
  "diagnostic = ''procs.json not found or invalid. Please create it and retry.'' @ [CHR 0x0A]"

text \<open>First revision: \<open>loadProcSpecs\<close> gives an error or the declarations, and \<open>main\<close>
  returns on \<open>err != nil || len(specs) == 0\<close>.\<close>

definition main_rev1 :: "os \<Rightarrow> string + procSpec list \<Rightarrow> key list \<Rightarrow> world \<Rightarrow> exit \<times> world" where
  "main_rev1 os loaded keys w =
     (let (header, w1) = alloc w in
      case loaded of
        Inl err \<Rightarrow> (Return, emit (Fprintln_stderr diagnostic) w1)
      | Inr specs \<Rightarrow>
          if length specs = 0 then (Return, emit (Fprintln_stderr diagnostic) w1)
          else
            let (procs, argvs, w2) = makeProcsFromSpecs_rev1 specs w1
            in supervise Rev1 os False procs argvs keys w2)"

text \<open>Second revision: \<open>loadConfig\<close> gives an error or the whole configuration, and \<open>main\<close>
  returns on \<open>err != nil\<close> only.\<close>

definition main_rev2 :: "os \<Rightarrow> string + procConfig \<Rightarrow> key list \<Rightarrow> world \<Rightarrow> exit \<times> world" where
  "main_rev2 os loaded keys w =
     (let (header, w1) = alloc w in
      case loaded of
        Inl err \<Rightarrow> (Return, emit (Fprintln_stderr diagnostic) w1)
      | Inr cfg \<Rightarrow>
          let (procs, argvs, w2) = makeProcsFromSpecs_rev2 (Processes cfg) w1
          in supervise Rev2 os (Dividers cfg) procs argvs keys w2)"

section \<open>The locking writer under interleaving\<close>

text \<open>
  \<^verbatim>\<open>func (l *lockingWriter) Write(b []byte) (int, error) { l.mu.Lock(); defer l.mu.Unlock(); return l.w.Write(b) }\<close>

  \<open>startProc\<close> hands one \<open>lockingWriter\<close> to two goroutines, \<open>io.Copy(lw, stdout)\<close> and
  \<open>io.Copy(lw, stderr)\<close>. Each calls \<open>lw.Write\<close> once per chunk it reads, until its pipe
  is at end of input. A copier is where one of them stands: the chunks it has written
  (\<open>finished\<close>), the chunk it is inside \<open>Write\<close> with, split into the bytes the inner writer
  has taken and the bytes still to come (\<open>current\<close>), and the chunks it has yet to write
  (\<open>pending\<close>). The inner writer \<open>l.w\<close> is given no atomicity of its own: it takes a chunk
  one byte at a time, and the scheduler may switch goroutines between any two bytes.
\<close>

record copier =
  finished :: "string list"
  current :: "(string \<times> string) option"
  pending :: "string list"

record lockingWriter =
  mu :: "stream option"
  written :: string
  stdout_copy :: copier
  stderr_copy :: copier

definition copier_of :: "stream \<Rightarrow> lockingWriter \<Rightarrow> copier" where
  "copier_of s l = (case s of Stdout \<Rightarrow> stdout_copy l | Stderr \<Rightarrow> stderr_copy l)"

definition set_copier :: "stream \<Rightarrow> copier \<Rightarrow> lockingWriter \<Rightarrow> lockingWriter" where
  "set_copier s c l = (case s of Stdout \<Rightarrow> l\<lparr>stdout_copy := c\<rparr> | Stderr \<Rightarrow> l\<lparr>stderr_copy := c\<rparr>)"

text \<open>One step of the goroutine copying stream \<open>s\<close>: \<open>mu.Lock()\<close> when it is about to write
  (it stays where it is while the other holds the mutex), one byte into the inner writer
  when it is inside \<open>Write\<close>, the deferred \<open>mu.Unlock()\<close> when the chunk is through, nothing
  once its pipe is at end of input.\<close>

definition copy_step :: "stream \<Rightarrow> lockingWriter \<Rightarrow> lockingWriter" where
  "copy_step s l =
     (let c = copier_of s l in
      case current c of
        None \<Rightarrow>
          (case pending c of
             [] \<Rightarrow> l
           | b # bs \<Rightarrow>
               if mu l = None
               then set_copier s (c\<lparr>current := Some ([], b), pending := bs\<rparr>) (l\<lparr>mu := Some s\<rparr>)
               else l)
      | Some (taken, []) \<Rightarrow>
          set_copier s (c\<lparr>finished := finished c @ [taken], current := None\<rparr>) (l\<lparr>mu := None\<rparr>)
      | Some (taken, x # rest) \<Rightarrow>
          set_copier s (c\<lparr>current := Some (taken @ [x], rest)\<rparr>) (l\<lparr>written := written l @ [x]\<rparr>))"

text \<open>A schedule says which goroutine moves next; every interleaving is some schedule.\<close>

definition interleave :: "stream list \<Rightarrow> lockingWriter \<Rightarrow> lockingWriter" where
  "interleave schedule l = foldl (\<lambda>l s. copy_step s l) l schedule"

definition new_lockingWriter :: "string list \<Rightarrow> string list \<Rightarrow> lockingWriter" where
  "new_lockingWriter out_chunks err_chunks =
     \<lparr>mu = None, written = [],
      stdout_copy = \<lparr>finished = [], current = None, pending = out_chunks\<rparr>,
      stderr_copy = \<lparr>finished = [], current = None, pending = err_chunks\<rparr>\<rparr>"

text \<open>The bytes of the chunk in progress that the inner writer has taken so far.\<close>

definition in_progress :: "lockingWriter \<Rightarrow> string" where
  "in_progress l =
     (case mu l of
        None \<Rightarrow> []
      | Some s \<Rightarrow> (case current (copier_of s l) of None \<Rightarrow> [] | Some (taken, rest) \<Rightarrow> taken))"

text \<open>The invariant of the interleaving, for the chunk sequences \<open>A\<close> of standard output
  and \<open>B\<close> of standard error: each copier's chunks are split into finished, current and
  pending; exactly the holder of the mutex is inside \<open>Write\<close>; and the inner writer has
  received the finished chunks whole, in an order that keeps each stream's own order,
  followed by the part taken of the chunk in progress.\<close>

fun chunk_of :: "(string \<times> string) option \<Rightarrow> string list" where
  "chunk_of None = []"
| "chunk_of (Some (taken, rest)) = [taken @ rest]"

definition lw_inv :: "string list \<Rightarrow> string list \<Rightarrow> lockingWriter \<Rightarrow> bool" where
  "lw_inv A B l =
     (finished (stdout_copy l) @ chunk_of (current (stdout_copy l)) @ pending (stdout_copy l) = A
      \<and> finished (stderr_copy l) @ chunk_of (current (stderr_copy l)) @ pending (stderr_copy l) = B
      \<and> (case mu l of
            None \<Rightarrow> current (stdout_copy l) = None \<and> current (stderr_copy l) = None
          | Some Stdout \<Rightarrow> current (stdout_copy l) \<noteq> None \<and> current (stderr_copy l) = None
          | Some Stderr \<Rightarrow> current (stderr_copy l) \<noteq> None \<and> current (stdout_copy l) = None)
      \<and> (\<exists>ws\<in>shuffles (finished (stdout_copy l)) (finished (stderr_copy l)).
            written l = concat ws @ in_progress l))"

section \<open>Reading a trace\<close>

text \<open>Vocabulary for the statements below; none of it is part of the program.
  \<open>new_events w w'\<close> is what was done between two states. An event is forceful when it
  kills without asking: \<open>SIGKILL\<close>, or \<open>Process.Kill()\<close>. \<open>view_text v\<close> is the content
  the sequential code has written to view \<open>v\<close>, a \<open>Clear\<close> emptying it.\<close>

text \<open>\<open>delivered os p sig\<close>: the events one call \<open>killTree(p, sig)\<close> produces.\<close>

definition delivered :: "os \<Rightarrow> proc \<Rightarrow> signal \<Rightarrow> event list" where
  "delivered os p sig = map snd (trace (killTree os p sig \<lparr>now = 0, trace = [], next_alloc = 0\<rparr>))"

definition new_events :: "world \<Rightarrow> world \<Rightarrow> (nat \<times> event) list" where
  "new_events w w' = drop (length (trace w)) (trace w')"

fun is_forceful :: "event \<Rightarrow> bool" where
  "is_forceful (Kill pid sig) = (sig = SIGKILL)"
| "is_forceful (Signal pid sig) = (sig = SIGKILL)"
| "is_forceful (ProcessKill pid) = True"
| "is_forceful e = False"

fun is_graceful :: "event \<Rightarrow> bool" where
  "is_graceful (Kill pid sig) = (sig = SIGTERM)"
| "is_graceful (Signal pid sig) = (sig = SIGTERM)"
| "is_graceful e = False"

fun is_sleep :: "event \<Rightarrow> bool" where
  "is_sleep (Sleep d) = True"
| "is_sleep e = False"

fun is_started :: "event \<Rightarrow> bool" where
  "is_started (Started c) = True"
| "is_started e = False"


fun is_clear :: "event \<Rightarrow> bool" where
  "is_clear (Clear v) = True"
| "is_clear e = False"

fun view_step :: "prim \<Rightarrow> string \<Rightarrow> nat \<times> event \<Rightarrow> string" where
  "view_step v s (t, Fprintf v' x) = (if v' = v then s @ x else s)"
| "view_step v s (t, Clear v') = (if v' = v then [] else s)"
| "view_step v s (t, e) = s"

definition view_text :: "prim \<Rightarrow> (nat \<times> event) list \<Rightarrow> string" where
  "view_text v tr = foldl (view_step v) [] tr"

section \<open>A worked configuration\<close>

text \<open>Three declarations \<open>A\<close>, \<open>B\<close>, \<open>C\<close> on a POSIX system where every spawn succeeds,
  sleeps are exact and no child ever exits by itself. Pids are made distinct from the
  working directory and the second of the clock.\<close>

definition example_specs :: "procSpec list" where
  "example_specs =
     [\<lparr>Name_s = ''A'', Dir_s = ''a'', Cmd_s = ''sh'', Args_s = [''-c'', ''echo A; sleep 60''],
       Follow_s = None\<rparr>,
      \<lparr>Name_s = ''B'', Dir_s = ''bb'', Cmd_s = ''sh'', Args_s = [''-c'', ''echo B; sleep 60''],
       Follow_s = Some False\<rparr>,
      \<lparr>Name_s = ''C'', Dir_s = ''ccc'', Cmd_s = ''sh'', Args_s = [''-c'', ''echo C; sleep 60''],
       Follow_s = None\<rparr>]"

definition example_os :: os where
  "example_os =
     \<lparr>goos_windows = False, environ = [''PATH=/bin''], getpgid = (\<lambda>pid. Some pid),
      exit_seen = (\<lambda>c t. False), oversleep = (\<lambda>t. 0),
      spawn = (\<lambda>c t. Inr (4000 + length (Dir_c c) + 10 * (t div Second))),
      run_error = None\<rparr>"

definition example_world :: world where
  "example_world = \<lparr>now = 0, trace = [], next_alloc = 1\<rparr>"

definition example_procs :: "proc list" where
  "example_procs = fst (makeProcsFromSpecs_rev2 example_specs example_world)"

definition example_argvs :: "string list list" where
  "example_argvs = fst (snd (makeProcsFromSpecs_rev2 example_specs example_world))"

text \<open>The application as \<open>main\<close> leaves it before the first key: focus on the column.\<close>

definition example_idle :: app where
  "example_idle =
     attach True example_procs (snd (snd (makeProcsFromSpecs_rev2 example_specs example_world)))"

text \<open>The same after a click on pane \<open>B\<close>.\<close>

definition example_focused :: app where
  "example_focused = example_idle\<lparr>app_focus := Some (View (example_procs ! 1))\<rparr>"

text \<open>The application once the start-up goroutine has run: three children, pids 4001 to
  4003, started at 120 ms.\<close>

definition example_started :: app where
  "example_started = snd (startup example_os example_argvs example_idle)"

definition example_cmd :: "string \<Rightarrow> string \<Rightarrow> nat \<Rightarrow> cmd" where
  "example_cmd n d pid =
     \<lparr>Args = [''sh'', ''-c'', ''echo '' @ n @ ''; sleep 60''], Dir_c = d,
      Env = [''PATH=/bin'', ''FORCE_COLOR=1'', ''CLICOLOR=1'', ''CLICOLOR_FORCE=1'',
             ''TERM=xterm-256color''],
      Setpgid = True, Process = Some pid\<rparr>"

text \<open>Pane \<open>B\<close> and the world at that moment.\<close>

definition example_B :: proc where
  "example_B = app_procs example_started ! 1"

definition example_w :: world where
  "example_w = app_world example_started"

text \<open>The same system with children that are seen to have exited from 2095 ms on the
  clock, which is 1975 ms after a reload begun at 120 ms.\<close>

definition example_os_late :: os where
  "example_os_late = example_os\<lparr>exit_seen := (\<lambda>c t. 2095 * Millisecond \<le> t)\<rparr>"

text \<open>And with children seen to have exited from 1000 ms on.\<close>

definition example_os_early :: os where
  "example_os_early = example_os\<lparr>exit_seen := (\<lambda>c t. 1000 * Millisecond \<le> t)\<rparr>"

text \<open>The state in which \<open>main\<close> begins, and a configuration that loads without error
  and declares no process.\<close>

definition example_boot :: world where
  "example_boot = \<lparr>now = 0, trace = [], next_alloc = 0\<rparr>"

definition example_empty :: procConfig where
  "example_empty = \<lparr>Processes = [], Borders = False, Dividers = True\<rparr>"

text \<open>A schedule for two copiers with one chunk each, \<open>ab\<close> on standard output and \<open>XY\<close>
  on standard error: the error copier is scheduled twice while the other is inside
  \<open>Write\<close>, and finds the mutex held.\<close>

definition example_schedule :: "stream list" where
  "example_schedule =
     [Stdout, Stdout, Stderr, Stdout, Stderr, Stdout, Stderr, Stderr, Stderr, Stderr]"

section \<open>Properties of reordering\<close>

lemma moveProc_loop_eq:
  "moveProc_loop ps i from acc =
     acc @ (if i \<le> from \<and> from < i + int (length ps)
            then without_index (nat (from - i)) ps else ps)"
proof (induction ps arbitrary: i acc)
  case Nil
  then show ?case by (simp add: without_index_def)
next
  case (Cons p ps)
  consider (here) "i = from"
    | (later) "i < from" "from < i + 1 + int (length ps)"
    | (never) "from < i \<or> i + 1 + int (length ps) \<le> from"
    by linarith
  then show ?case
  proof cases
    case here
    then have "\<not> (i + 1 \<le> from \<and> from < i + 1 + int (length ps))" by simp
    with here show ?thesis
      using Cons.IH [of "i + 1" acc] by (simp add: without_index_def)
  next
    case later
    then have inner: "i + 1 \<le> from \<and> from < i + 1 + int (length ps)" by simp
    from later have outer: "i \<le> from \<and> from < i + int (length (p # ps))" by simp
    from later have idx: "nat (from - i) = Suc (nat (from - (i + 1)))" by arith
    from later have "moveProc_loop (p # ps) i from acc = moveProc_loop ps (i + 1) from (acc @ [p])"
      by simp
    also have "\<dots> = (acc @ [p]) @ without_index (nat (from - (i + 1))) ps"
      using Cons.IH [of "i + 1" "acc @ [p]"] inner by presburger
    also have "\<dots> = acc @ without_index (nat (from - i)) (p # ps)"
      by (simp add: idx without_index_def)
    finally show ?thesis using outer by presburger
  next
    case never
    then have inner: "\<not> (i + 1 \<le> from \<and> from < i + 1 + int (length ps))" by auto
    from never have outer: "\<not> (i \<le> from \<and> from < i + int (length (p # ps)))" by auto
    from never have "i \<noteq> from" by auto
    then have "moveProc_loop (p # ps) i from acc = moveProc_loop ps (i + 1) from (acc @ [p])"
      by simp
    also have "\<dots> = (acc @ [p]) @ ps"
      using Cons.IH [of "i + 1" "acc @ [p]"] inner by presburger
    finally have run: "moveProc_loop (p # ps) i from acc = acc @ p # ps" by simp
    have "(if i \<le> from \<and> from < i + int (length (p # ps))
           then without_index (nat (from - i)) (p # ps) else p # ps) = p # ps"
      using outer by (rule if_not_P)
    with run show ?thesis by (simp only:)
  qed
qed

lemma moveProc_valid_eq:
  assumes "0 \<le> from" "from < int (length procs)" "0 \<le> to" "to < int (length procs)" "from \<noteq> to"
  shows "moveProc procs from to =
           take (nat to) (without_index (nat from) procs) @ procs ! nat from
             # drop (nat to) (without_index (nat from) procs)"
proof -
  have len: "length (without_index (nat from) procs) = length procs - 1"
    using assms by (simp add: without_index_def)
  have loop: "moveProc_loop procs 0 from [] = without_index (nat from) procs"
    using assms by (simp add: moveProc_loop_eq)
  show ?thesis
  proof (cases "to \<ge> int (length procs - 1)")
    case True
    then have "nat to \<ge> length (without_index (nat from) procs)" using len by simp
    then show ?thesis using assms True loop len by (simp add: moveProc_def Let_def)
  next
    case False
    then show ?thesis using assms loop len by (simp add: moveProc_def Let_def)
  qed
qed

lemma length_without_index: "i < length xs \<Longrightarrow> length (without_index i xs) = length xs - 1"
  by (simp add: without_index_def)

lemma mset_without_index: "i < length xs \<Longrightarrow> add_mset (xs ! i) (mset (without_index i xs)) = mset xs"
proof -
  assume "i < length xs"
  then have "xs = take i xs @ xs ! i # drop (Suc i) xs" by (rule id_take_nth_drop)
  then have "mset xs = mset (take i xs @ xs ! i # drop (Suc i) xs)" by simp
  then show ?thesis by (simp add: without_index_def)
qed

lemma without_index_insert:
  "t \<le> length xs \<Longrightarrow> without_index t (take t xs @ x # drop t xs) = xs"
  by (simp add: without_index_def)

lemma nth_insert: "t \<le> length xs \<Longrightarrow> (take t xs @ x # drop t xs) ! t = x"
  by (simp add: nth_append)

text \<open>
  Claim C1. For valid, distinct indices \<open>from\<close> and \<open>to\<close>, \<open>moveProc\<close> returns a permutation
  of its input (the same multiset, so no handle is duplicated or dropped, and the same
  length), the handle formerly at \<open>from\<close> is at \<open>to\<close>, and the other handles keep their
  relative order: the result without position \<open>to\<close> is the input without position
  \<open>from\<close>. For an index out of range, or \<open>from = to\<close>, the result is the input.
\<close>

theorem moveProc_permutation:
  "(0 \<le> from \<and> from < int (length procs) \<and> 0 \<le> to \<and> to < int (length procs) \<and> from \<noteq> to \<longrightarrow>
      mset (moveProc procs from to) = mset procs
    \<and> length (moveProc procs from to) = length procs
    \<and> moveProc procs from to ! nat to = procs ! nat from
    \<and> without_index (nat to) (moveProc procs from to) = without_index (nat from) procs)
   \<and> (from < 0 \<or> from \<ge> int (length procs) \<or> to < 0 \<or> to \<ge> int (length procs) \<or> from = to \<longrightarrow>
        moveProc procs from to = procs)"
proof (intro conjI impI)
  assume "from < 0 \<or> from \<ge> int (length procs) \<or> to < 0 \<or> to \<ge> int (length procs) \<or> from = to"
  then show "moveProc procs from to = procs" by (simp add: moveProc_def)
next
  assume v: "0 \<le> from \<and> from < int (length procs) \<and> 0 \<le> to \<and> to < int (length procs) \<and> from \<noteq> to"
  define xs where "xs = without_index (nat from) procs"
  have f: "nat from < length procs" and t: "nat to < length procs" using v by auto
  have len: "length xs = length procs - 1" unfolding xs_def using f by (rule length_without_index)
  have tle: "nat to \<le> length xs" using t len by simp
  have eq: "moveProc procs from to = take (nat to) xs @ procs ! nat from # drop (nat to) xs"
    unfolding xs_def using v by (intro moveProc_valid_eq) auto
  have split: "mset (take (nat to) xs) + mset (drop (nat to) xs) = mset xs"
    by (metis append_take_drop_id mset_append)
  have "mset (moveProc procs from to) = add_mset (procs ! nat from) (mset xs)"
    unfolding eq by (simp add: split)
  also have "\<dots> = mset procs" unfolding xs_def using f by (rule mset_without_index)
  finally show "mset (moveProc procs from to) = mset procs" .
  show "length (moveProc procs from to) = length procs"
    unfolding eq using len f by simp
  show "moveProc procs from to ! nat to = procs ! nat from"
    unfolding eq using tle by (rule nth_insert)
  show "without_index (nat to) (moveProc procs from to) = without_index (nat from) procs"
    unfolding eq using tle by (simp add: without_index_insert xs_def)
qed

theorem moveProc_permutation_witness:
  "moveProc [''A'', ''B'', ''C''] 0 2 = [''B'', ''C'', ''A'']
   \<and> mset (moveProc [''A'', ''B'', ''C''] 0 2) = mset [''A'', ''B'', ''C'']
   \<and> moveProc [''A'', ''B'', ''C''] 0 2 ! 2 = ''A''
   \<and> without_index 2 (moveProc [''A'', ''B'', ''C''] 0 2) = [''B'', ''C'']
   \<and> moveProc [''A'', ''B'', ''C''] 3 0 = [''A'', ''B'', ''C'']
   \<and> moveProc [''A'', ''B'', ''C''] 1 1 = [''A'', ''B'', ''C'']"
  using moveProc_permutation [of 0 "[''A'', ''B'', ''C'']" 2]
        moveProc_permutation [of 3 "[''A'', ''B'', ''C'']" 0]
        moveProc_permutation [of 1 "[''A'', ''B'', ''C'']" 1]
  by (simp add: moveProc_def without_index_def)

subsection \<open>Reordering: the facts the key handler needs\<close>

lemma moveProc_mset:
  assumes "0 \<le> from" "from < int (length procs)" "0 \<le> to" "to < int (length procs)" "from \<noteq> to"
  shows "mset (moveProc procs from to) = mset procs"
proof -
  let ?xs = "without_index (nat from) procs"
  have f: "nat from < length procs" using assms by auto
  have split: "mset (take (nat to) ?xs) + mset (drop (nat to) ?xs) = mset ?xs"
    by (metis append_take_drop_id mset_append)
  have "mset (moveProc procs from to) = add_mset (procs ! nat from) (mset ?xs)"
    by (simp add: moveProc_valid_eq [OF assms] split)
  also have "\<dots> = mset procs" using f by (rule mset_without_index)
  finally show ?thesis .
qed

lemma moveProc_length: "length (moveProc procs from to) = length procs"
proof (cases "0 \<le> from \<and> from < int (length procs) \<and> 0 \<le> to \<and> to < int (length procs) \<and> from \<noteq> to")
  case True
  then have "mset (moveProc procs from to) = mset procs" by (intro moveProc_mset) auto
  then show ?thesis by (rule mset_eq_length)
next
  case False
  then have "moveProc procs from to = procs" by (auto simp: moveProc_def)
  then show ?thesis by simp
qed

lemma moveProc_nth_target:
  assumes "0 \<le> from" "from < int (length procs)" "0 \<le> to" "to < int (length procs)" "from \<noteq> to"
  shows "moveProc procs from to ! nat to = procs ! nat from"
proof -
  have "length (without_index (nat from) procs) = length procs - 1"
    using assms by (intro length_without_index) auto
  then have "nat to \<le> length (without_index (nat from) procs)" using assms by auto
  then show ?thesis unfolding moveProc_valid_eq [OF assms] by (rule nth_insert)
qed

lemma moveProc_distinct_views:
  "distinct (map View procs) \<Longrightarrow> distinct (map View (moveProc procs from to))"
proof (cases "0 \<le> from \<and> from < int (length procs) \<and> 0 \<le> to \<and> to < int (length procs) \<and> from \<noteq> to")
  case True
  assume d: "distinct (map View procs)"
  from True have "mset (moveProc procs from to) = mset procs" by (intro moveProc_mset) auto
  then have "mset (map View (moveProc procs from to)) = mset (map View procs)" by simp
  then have "distinct (map View (moveProc procs from to)) = distinct (map View procs)"
    by (rule mset_eq_imp_distinct_iff)
  with d show ?thesis by simp
next
  case False
  assume d: "distinct (map View procs)"
  from False have "moveProc procs from to = procs" by (auto simp: moveProc_def)
  with d show ?thesis by simp
qed

subsection \<open>The focused index\<close>

lemma focusedProcIndex_loop_none:
  "f \<notin> Some ` View ` set ps \<Longrightarrow> focusedProcIndex_loop f ps i = - 1"
  by (induction ps arbitrary: i) auto

lemma focusedProcIndex_loop_first:
  "k < length ps \<Longrightarrow> Some (View (ps ! k)) = f \<Longrightarrow> \<forall>j<k. Some (View (ps ! j)) \<noteq> f
     \<Longrightarrow> focusedProcIndex_loop f ps i = i + int k"
proof (induction ps arbitrary: i k)
  case Nil
  then show ?case by simp
next
  case (Cons p ps)
  show ?case
  proof (cases k)
    case 0
    with Cons.prems show ?thesis by simp
  next
    case (Suc k')
    with Cons.prems have head: "Some (View p) \<noteq> f" by auto
    from Suc Cons.prems have "focusedProcIndex_loop f ps (i + 1) = (i + 1) + int k'"
      by (intro Cons.IH) auto
    with head Suc show ?thesis by simp
  qed
qed

lemma focusedProcIndex_loop_range:
  "0 \<le> i \<Longrightarrow> focusedProcIndex_loop f ps i = r \<Longrightarrow> 0 \<le> r
     \<Longrightarrow> i \<le> r \<and> r < i + int (length ps) \<and> Some (View (ps ! nat (r - i))) = f"
proof (induction ps arbitrary: i)
  case Nil
  then show ?case by simp
next
  case (Cons p ps)
  show ?case
  proof (cases "Some (View p) = f")
    case True
    with Cons.prems show ?thesis by simp
  next
    case False
    with Cons.prems have "focusedProcIndex_loop f ps (i + 1) = r" by simp
    with Cons.prems have ih: "i + 1 \<le> r \<and> r < i + 1 + int (length ps)
        \<and> Some (View (ps ! nat (r - (i + 1)))) = f"
      by (intro Cons.IH) auto
    then have "nat (r - i) = Suc (nat (r - (i + 1)))" by arith
    with ih show ?thesis by simp
  qed
qed

lemma focusedProcIndex_range:
  assumes "focusedProcIndex f procs = idx" "0 \<le> idx"
  shows "idx < int (length procs)" and "Some (View (procs ! nat idx)) = f"
  using focusedProcIndex_loop_range [of 0 f procs idx] assms
  by (simp_all add: focusedProcIndex_def)

lemma focusedProcIndex_none:
  "f \<notin> Some ` View ` set procs \<Longrightarrow> focusedProcIndex f procs = - 1"
  by (simp add: focusedProcIndex_def focusedProcIndex_loop_none)

lemma focusedProcIndex_at:
  assumes "distinct (map View procs)" "k < length procs"
  shows "focusedProcIndex (Some (View (procs ! k))) procs = int k"
proof -
  have "\<forall>j<k. Some (View (procs ! j)) \<noteq> Some (View (procs ! k))"
  proof (intro allI impI)
    fix j assume "j < k"
    with assms have "map View procs ! j \<noteq> map View procs ! k"
      by (simp add: nth_eq_iff_index_eq del: nth_map)
    with \<open>j < k\<close> assms show "Some (View (procs ! j)) \<noteq> Some (View (procs ! k))" by simp
  qed
  with assms(2) have "focusedProcIndex_loop (Some (View (procs ! k))) procs 0 = 0 + int k"
    by (intro focusedProcIndex_loop_first) auto
  then show ?thesis by (simp add: focusedProcIndex_def)
qed

subsection \<open>Focus cycling\<close>

lemma tab_step:
  assumes "distinct (map View (app_procs a))" "k < length (app_procs a)"
    and "app_focus a = Some (View (app_procs a ! k))"
  shows "handleKey rv os KeyTAB a
           = a\<lparr>app_focus := Some (View (app_procs a ! (Suc k mod length (app_procs a))))\<rparr>"
proof -
  have idx: "focusedProcIndex (app_focus a) (app_procs a) = int k"
    using assms by (simp add: focusedProcIndex_at)
  have "nat ((int k + 1) mod int (length (app_procs a))) = Suc k mod length (app_procs a)"
    by (simp add: nat_mod_distrib nat_add_distrib)
  with idx show ?thesis by (simp add: handleKey_def Let_def)
qed

lemma tab_iterate:
  assumes "distinct (map View (app_procs a))" "k < length (app_procs a)"
    and "app_focus a = Some (View (app_procs a ! k))"
  shows "(handleKey rv os KeyTAB ^^ n) a
           = a\<lparr>app_focus := Some (View (app_procs a ! ((k + n) mod length (app_procs a))))\<rparr>"
proof (induction n)
  case 0
  with assms show ?case by simp
next
  case (Suc n)
  let ?N = "length (app_procs a)"
  let ?b = "a\<lparr>app_focus := Some (View (app_procs a ! ((k + n) mod ?N)))\<rparr>"
  have pos: "0 < ?N" using assms(2) by linarith
  have "handleKey rv os KeyTAB ?b
          = ?b\<lparr>app_focus := Some (View (app_procs ?b ! (Suc ((k + n) mod ?N) mod length (app_procs ?b))))\<rparr>"
    using assms(1) pos by (intro tab_step) simp_all
  moreover have "Suc ((k + n) mod ?N) mod ?N = (k + Suc n) mod ?N"
    by (simp add: mod_Suc_eq)
  ultimately show ?case using Suc by simp
qed

subsection \<open>The worked configuration, evaluated\<close>

lemma example_made:
  "makeProcsFromSpecs_rev2 example_specs example_world =
     ([\<lparr>Name = ''A'', Dir = ''a'', Cmd = None, View = 1, Container = Some 2, Follow = True,
       Argv = [''sh'', ''-c'', ''echo A; sleep 60'']\<rparr>,
      \<lparr>Name = ''B'', Dir = ''bb'', Cmd = None, View = 3, Container = Some 4, Follow = False,
       Argv = [''sh'', ''-c'', ''echo B; sleep 60'']\<rparr>,
      \<lparr>Name = ''C'', Dir = ''ccc'', Cmd = None, View = 5, Container = Some 6, Follow = True,
       Argv = [''sh'', ''-c'', ''echo C; sleep 60'']\<rparr>],
      [[''sh'', ''-c'', ''echo A; sleep 60''], [''sh'', ''-c'', ''echo B; sleep 60''],
       [''sh'', ''-c'', ''echo C; sleep 60'']],
      \<lparr>now = 0, trace = [], next_alloc = 7\<rparr>)"
  by (simp add: makeProcsFromSpecs_rev2_def example_specs_def example_world_def
      alloc_def Let_def)

lemma example_procs_eq:
  "example_procs =
     [\<lparr>Name = ''A'', Dir = ''a'', Cmd = None, View = 1, Container = Some 2, Follow = True,
       Argv = [''sh'', ''-c'', ''echo A; sleep 60'']\<rparr>,
      \<lparr>Name = ''B'', Dir = ''bb'', Cmd = None, View = 3, Container = Some 4, Follow = False,
       Argv = [''sh'', ''-c'', ''echo B; sleep 60'']\<rparr>,
      \<lparr>Name = ''C'', Dir = ''ccc'', Cmd = None, View = 5, Container = Some 6, Follow = True,
       Argv = [''sh'', ''-c'', ''echo C; sleep 60'']\<rparr>]"
  by (simp add: example_procs_def example_made)

lemma example_idle_eq:
  "example_idle =
     \<lparr>app_procs = example_procs, app_focus = Some 7, app_stopped = False, app_dividers = True,
      app_mainArea = 7, app_root = 10, app_world = \<lparr>now = 0, trace = [], next_alloc = 11\<rparr>\<rparr>"
  unfolding example_idle_def example_made snd_conv
  by (simp add: attach_def buildMainArea_def example_procs_eq alloc_def)


lemma example_focused_eq:
  "example_focused =
     \<lparr>app_procs = example_procs, app_focus = Some 3, app_stopped = False, app_dividers = True,
      app_mainArea = 7, app_root = 10, app_world = \<lparr>now = 0, trace = [], next_alloc = 11\<rparr>\<rparr>"
  by (simp add: example_focused_def example_idle_eq) (simp add: example_procs_eq)

subsection \<open>Claims about focus\<close>

text \<open>
  Claim C9. In a registry of \<open>N\<close> panes with distinct views and the focus on the pane at
  index \<open>k\<close>, one focus-next moves the focus to the pane at index \<open>(k + 1) mod N\<close>, and
  \<open>N\<close> of them bring the application back to the state it started from, focus included.
  Views are distinct in every state the event loop passes through (lemma
  \<open>event_loop_distinct\<close>).
\<close>

theorem focus_next_wraps:
  assumes "distinct (map View (app_procs a))"
    and "focusedProcIndex (app_focus a) (app_procs a) = int k"
  shows "focusedProcIndex (app_focus (handleKey rv os KeyTAB a)) (app_procs (handleKey rv os KeyTAB a))
           = (int k + 1) mod int (length (app_procs a))
         \<and> (handleKey rv os KeyTAB ^^ length (app_procs a)) a = a"
proof -
  let ?N = "length (app_procs a)"
  have k: "k < ?N" and f: "app_focus a = Some (View (app_procs a ! k))"
    using focusedProcIndex_range [OF assms(2)] by simp_all
  have step: "handleKey rv os KeyTAB a = a\<lparr>app_focus := Some (View (app_procs a ! (Suc k mod ?N)))\<rparr>"
    using assms(1) k f by (rule tab_step)
  have pos: "0 < ?N" using k by linarith
  have "Suc k mod ?N < ?N" using pos by (rule mod_less_divisor)
  then have "focusedProcIndex (Some (View (app_procs a ! (Suc k mod ?N)))) (app_procs a)
               = int (Suc k mod ?N)"
    using assms(1) by (intro focusedProcIndex_at)
  moreover have "int (Suc k mod ?N) = (int k + 1) mod int ?N"
    by (simp add: zmod_int add.commute)
  ultimately have one: "focusedProcIndex (app_focus (handleKey rv os KeyTAB a))
      (app_procs (handleKey rv os KeyTAB a)) = (int k + 1) mod int ?N"
    by (simp add: step)
  have "(handleKey rv os KeyTAB ^^ ?N) a
          = a\<lparr>app_focus := Some (View (app_procs a ! ((k + ?N) mod ?N)))\<rparr>"
    using assms(1) k f by (rule tab_iterate)
  also have "\<dots> = a" using k f by simp
  finally show ?thesis using one by simp
qed

theorem focus_next_wraps_witness:
  "distinct (map View (app_procs example_focused))
   \<and> focusedProcIndex (app_focus example_focused) (app_procs example_focused) = 1
   \<and> focusedProcIndex (app_focus (handleKey Rev2 example_os KeyTAB example_focused))
        (app_procs (handleKey Rev2 example_os KeyTAB example_focused)) = 2
   \<and> (handleKey Rev2 example_os KeyTAB ^^ 3) example_focused = example_focused"
proof -
  have d: "distinct (map View (app_procs example_focused))"
    by (simp add: example_focused_eq example_procs_eq)
  have i: "focusedProcIndex (app_focus example_focused) (app_procs example_focused) = int 1"
    by (simp add: example_focused_eq example_procs_eq focusedProcIndex_def)
  have n: "length (app_procs example_focused) = 3"
    by (simp add: example_focused_eq example_procs_eq)
  show ?thesis
    using focus_next_wraps [OF d i, of Rev2 example_os] d i n by simp
qed

text \<open>
  Claim C6, as the code has it. When the focus is on no pane (\<open>focusedProcIndex\<close> gives
  \<open>-1\<close>), the focus-next key changes nothing: the guard \<open>idx >= 0\<close> skips \<open>SetFocus\<close>, so
  the focus stays where it was and no pane becomes focused.
\<close>

theorem focus_next_from_none:
  assumes "focusedProcIndex (app_focus a) (app_procs a) = - 1"
  shows "handleKey rv os KeyTAB a = a"
  using assms by (simp add: handleKey_def Let_def)

theorem focus_next_from_none_witness:
  "focusedProcIndex (app_focus example_idle) (app_procs example_idle) = - 1
   \<and> handleKey Rev2 example_os KeyTAB example_idle = example_idle"
proof -
  have i: "focusedProcIndex (app_focus example_idle) (app_procs example_idle) = - 1"
    by (simp add: example_idle_eq example_procs_eq focusedProcIndex_def)
  show ?thesis using focus_next_from_none [OF i, of Rev2 example_os] i by simp
qed

text \<open>The claim as the specification states it fails in the state \<open>main\<close> sets up: the
  focus is on the column, and after the focus-next key it is not on the pane at index 0.\<close>

theorem focus_next_from_none_counterexample:
  "focusedProcIndex (app_focus example_idle) (app_procs example_idle) = - 1
   \<and> app_focus (handleKey Rev2 example_os KeyTAB example_idle)
        \<noteq> Some (View (app_procs example_idle ! 0))"
  by (simp add: handleKey_def Let_def example_idle_eq example_procs_eq focusedProcIndex_def)

subsection \<open>What a start and a reload change in a handle\<close>

lemma startProc_frame:
  "startProc os p argv w = (r, p', w') \<Longrightarrow> p' = p\<lparr>Cmd := Cmd p'\<rparr>"
  by (auto simp: startProc_def Let_def alloc_def split: list.splits sum.splits)

lemma reloadProc_frame:
  "reloadProc os (Some p) w = (po, w') \<Longrightarrow> \<exists>p'. po = Some p' \<and> p' = p\<lparr>Cmd := Cmd p'\<rparr>"
proof -
  assume r: "reloadProc os (Some p) w = (po, w')"
  show ?thesis
  proof (cases "length (Argv p) = 0")
    case True
    with r show ?thesis by (auto simp: reloadProc_def)
  next
    case False
    with r obtain w2 res p' where s: "startProc os p (Argv p) w2 = (res, p', w')" and po: "po = Some p'"
      by (auto simp: reloadProc_def Let_def split: prod.splits)
    from s have "p' = p\<lparr>Cmd := Cmd p'\<rparr>" by (rule startProc_frame)
    with po show ?thesis by simp
  qed
qed

subsection \<open>Views are distinct in every reachable state\<close>

lemma makeProcsFromSpecs_rev2_loop_distinct:
  "makeProcsFromSpecs_rev2_loop ss procs argvs w = (procs', argvs', w')
     \<Longrightarrow> distinct (map View procs) \<Longrightarrow> \<forall>p\<in>set procs. View p < next_alloc w
     \<Longrightarrow> distinct (map View procs') \<and> (\<forall>p\<in>set procs'. View p < next_alloc w')"
proof (induction ss arbitrary: procs argvs w)
  case Nil
  then show ?case by simp
next
  case (Cons s ss)
  let ?p = "\<lparr>Name = Name_s s, Dir = Dir_s s, Cmd = None, View = next_alloc w,
             Container = Some (Suc (next_alloc w)),
             Follow = (case Follow_s s of None \<Rightarrow> True | Some b \<Rightarrow> b),
             Argv = [Cmd_s s] @ Args_s s\<rparr>"
  let ?w = "w\<lparr>next_alloc := Suc (Suc (next_alloc w))\<rparr>"
  from Cons.prems(1)
  have run: "makeProcsFromSpecs_rev2_loop ss (procs @ [?p]) (argvs @ [[Cmd_s s] @ Args_s s]) ?w
               = (procs', argvs', w')"
    by (simp add: alloc_def Let_def)
  have d: "distinct (map View (procs @ [?p]))"
    using Cons.prems(2,3) by auto
  have b: "\<forall>p\<in>set (procs @ [?p]). View p < next_alloc ?w"
    using Cons.prems(3) by (auto simp: less_Suc_eq)
  from Cons.IH [OF run d b] show ?case .
qed

lemma makeProcsFromSpecs_rev2_distinct:
  "makeProcsFromSpecs_rev2 specs w = (procs, argvs, w') \<Longrightarrow> distinct (map View procs)"
  using makeProcsFromSpecs_rev2_loop_distinct [of specs "[]" "[]" w procs argvs w']
  by (simp add: makeProcsFromSpecs_rev2_def)

lemma rebuild_procs: "app_procs (rebuild procs target a) = procs"
  by (simp add: rebuild_def Let_def split: prod.splits)

lemma map_View_update:
  "View p' = View (procs ! i) \<Longrightarrow> map View (procs[i := p']) = map View procs"
  by (metis list_update_id map_update)

lemma handleKey_distinct:
  assumes "distinct (map View (app_procs a))"
  shows "distinct (map View (app_procs (handleKey rv os ev a)))"
proof (cases ev)
  case KeyTAB
  with assms show ?thesis by (simp add: handleKey_def Let_def)
next
  case KeyCtrlL
  with assms show ?thesis by (simp add: handleKey_def Let_def)
next
  case KeyCtrlC
  with assms show ?thesis by (simp add: handleKey_def Let_def)
next
  case (KeyRune r)
  let ?procs = "app_procs a"
  let ?idx = "focusedProcIndex (app_focus a) ?procs"
  have moved: "\<And>from to. distinct (map View (moveProc ?procs from to))"
    using assms by (rule moveProc_distinct_views)
  have reload: "distinct (map View (app_procs
      (case reloadProc os (Some (?procs ! nat ?idx)) (app_world a) of
         (Some p', w') \<Rightarrow> a\<lparr>app_procs := ?procs[nat ?idx := p'], app_world := w'\<rparr>
       | (None, w') \<Rightarrow> a\<lparr>app_world := w'\<rparr>)))"
  proof (cases "reloadProc os (Some (?procs ! nat ?idx)) (app_world a)")
    case (Pair po w')
    from reloadProc_frame [OF Pair] obtain p' where
      po: "po = Some p'" and fr: "p' = (?procs ! nat ?idx)\<lparr>Cmd := Cmd p'\<rparr>" by blast
    from fr have "View p' = View (?procs ! nat ?idx)"
      by (metis proc.select_convs(4) proc.surjective proc.update_convs(3))
    then have "map View (?procs[nat ?idx := p']) = map View ?procs" by (rule map_View_update)
    with assms Pair po show ?thesis by simp
  qed
  have follow: "map View (?procs[nat ?idx := (?procs ! nat ?idx)\<lparr>Follow := \<not> Follow (?procs ! nat ?idx)\<rparr>])
                  = map View ?procs"
    by (rule map_View_update) simp
  show ?thesis
    using assms KeyRune moved reload follow
    by (simp add: handleKey_def Let_def rebuild_procs)
qed

subsection \<open>Moving the focused pane\<close>

lemma rebuild_focus: "app_focus (rebuild procs target a) = Some (View (procs ! nat target))"
  by (simp add: rebuild_def Let_def split: prod.splits)

lemma move_focused:
  assumes d: "distinct (map View (app_procs a))"
    and i: "focusedProcIndex (app_focus a) (app_procs a) = idx" "0 \<le> idx"
    and t: "0 \<le> to" "to < int (length (app_procs a))" "idx \<noteq> to"
  defines "a' \<equiv> rebuild (moveProc (app_procs a) idx to) to a"
  shows "app_focus a' = app_focus a"
    and "app_procs a' ! nat to = app_procs a ! nat idx"
    and "focusedProcIndex (app_focus a') (app_procs a') = to"
    and "mset (app_procs a') = mset (app_procs a)"
proof -
  let ?procs = "app_procs a"
  have r: "idx < int (length ?procs)" and f: "Some (View (?procs ! nat idx)) = app_focus a"
    using focusedProcIndex_range [OF i] by simp_all
  have nth: "moveProc ?procs idx to ! nat to = ?procs ! nat idx"
    using i(2) r t by (rule moveProc_nth_target)
  show "app_focus a' = app_focus a"
    by (simp add: a'_def rebuild_focus nth f)
  show "app_procs a' ! nat to = app_procs a ! nat idx"
    by (simp add: a'_def rebuild_procs nth)
  show "mset (app_procs a') = mset (app_procs a)"
    unfolding a'_def rebuild_procs using i(2) r t by (rule moveProc_mset)
  have d': "distinct (map View (moveProc ?procs idx to))"
    using d by (rule moveProc_distinct_views)
  have "nat to < length (moveProc ?procs idx to)"
    using t by (simp add: moveProc_length)
  with d' have "focusedProcIndex (Some (View (moveProc ?procs idx to ! nat to))) (moveProc ?procs idx to)
                  = int (nat to)"
    by (rule focusedProcIndex_at)
  then show "focusedProcIndex (app_focus a') (app_procs a') = to"
    using t by (simp add: a'_def rebuild_procs rebuild_focus)
qed

text \<open>
  Claim C10. Let the focus be on the pane at index \<open>idx\<close> of a registry with distinct
  views (as every registry of the event loop has, lemma \<open>event_loop_distinct\<close>). If the
  pane is not the last, the move-down key \<open>J\<close> leaves the focus on the same view, which is
  now the view of the pane at index \<open>idx + 1\<close>, the handle formerly at \<open>idx\<close>; the
  registry is a permutation of the old one. If the pane is not the first, the move-up key
  \<open>K\<close> does the same with \<open>idx - 1\<close>. On the last pane \<open>J\<close>, and on the first pane \<open>K\<close>,
  leave the whole application state as it was.
\<close>

theorem move_pane_keeps_focus:
  assumes "distinct (map View (app_procs a))"
    and "focusedProcIndex (app_focus a) (app_procs a) = idx" and "0 \<le> idx"
  shows "(idx + 1 < int (length (app_procs a)) \<longrightarrow>
           (let a' = handleKey rv os (KeyRune (CHR ''J'')) a in
              app_focus a' = app_focus a
              \<and> app_procs a' ! nat (idx + 1) = app_procs a ! nat idx
              \<and> focusedProcIndex (app_focus a') (app_procs a') = idx + 1
              \<and> mset (app_procs a') = mset (app_procs a)))
       \<and> (idx + 1 = int (length (app_procs a)) \<longrightarrow> handleKey rv os (KeyRune (CHR ''J'')) a = a)
       \<and> (0 < idx \<longrightarrow>
           (let a' = handleKey rv os (KeyRune (CHR ''K'')) a in
              app_focus a' = app_focus a
              \<and> app_procs a' ! nat (idx - 1) = app_procs a ! nat idx
              \<and> focusedProcIndex (app_focus a') (app_procs a') = idx - 1
              \<and> mset (app_procs a') = mset (app_procs a)))
       \<and> (idx = 0 \<longrightarrow> handleKey rv os (KeyRune (CHR ''K'')) a = a)"
proof (intro conjI impI)
  assume down: "idx + 1 < int (length (app_procs a))"
  have key: "handleKey rv os (KeyRune (CHR ''J'')) a
               = rebuild (moveProc (app_procs a) idx (idx + 1)) (idx + 1) a"
    using assms(2,3) down by (simp add: handleKey_def Let_def)
  show "let a' = handleKey rv os (KeyRune (CHR ''J'')) a in
          app_focus a' = app_focus a
          \<and> app_procs a' ! nat (idx + 1) = app_procs a ! nat idx
          \<and> focusedProcIndex (app_focus a') (app_procs a') = idx + 1
          \<and> mset (app_procs a') = mset (app_procs a)"
    unfolding key Let_def
    using move_focused [OF assms, of "idx + 1"] assms(3) down by simp
next
  assume "idx + 1 = int (length (app_procs a))"
  then show "handleKey rv os (KeyRune (CHR ''J'')) a = a"
    using assms(2,3) by (simp add: handleKey_def Let_def)
next
  assume up: "0 < idx"
  have r: "idx < int (length (app_procs a))"
    using focusedProcIndex_range(1) [OF assms(2,3)] .
  have key: "handleKey rv os (KeyRune (CHR ''K'')) a
               = rebuild (moveProc (app_procs a) idx (idx - 1)) (idx - 1) a"
    using assms(2) up by (simp add: handleKey_def Let_def)
  show "let a' = handleKey rv os (KeyRune (CHR ''K'')) a in
          app_focus a' = app_focus a
          \<and> app_procs a' ! nat (idx - 1) = app_procs a ! nat idx
          \<and> focusedProcIndex (app_focus a') (app_procs a') = idx - 1
          \<and> mset (app_procs a') = mset (app_procs a)"
    unfolding key Let_def
    using move_focused [OF assms, of "idx - 1"] up r by simp
next
  assume "idx = 0"
  then show "handleKey rv os (KeyRune (CHR ''K'')) a = a"
    using assms(2) by (simp add: handleKey_def Let_def)
qed

theorem move_pane_keeps_focus_witness:
  "distinct (map View (app_procs example_focused))
   \<and> focusedProcIndex (app_focus example_focused) (app_procs example_focused) = 1
   \<and> map Name (app_procs (handleKey Rev2 example_os (KeyRune (CHR ''J'')) example_focused))
        = [''A'', ''C'', ''B'']
   \<and> focusedProcIndex (app_focus (handleKey Rev2 example_os (KeyRune (CHR ''J'')) example_focused))
        (app_procs (handleKey Rev2 example_os (KeyRune (CHR ''J'')) example_focused)) = 2
   \<and> map Name (app_procs (handleKey Rev2 example_os (KeyRune (CHR ''K'')) example_focused))
        = [''B'', ''A'', ''C'']
   \<and> focusedProcIndex (app_focus (handleKey Rev2 example_os (KeyRune (CHR ''K'')) example_focused))
        (app_procs (handleKey Rev2 example_os (KeyRune (CHR ''K'')) example_focused)) = 0
   \<and> app_focus (handleKey Rev2 example_os (KeyRune (CHR ''K'')) example_focused)
        = app_focus example_focused"
proof -
  have d: "distinct (map View (app_procs example_focused))"
    by (simp add: example_focused_eq example_procs_eq)
  have i: "focusedProcIndex (app_focus example_focused) (app_procs example_focused) = 1"
    by (simp add: example_focused_eq example_procs_eq focusedProcIndex_def)
  have n: "length (app_procs example_focused) = 3"
    by (simp add: example_focused_eq example_procs_eq)
  have j: "map Name (app_procs (handleKey Rev2 example_os (KeyRune (CHR ''J'')) example_focused))
             = [''A'', ''C'', ''B'']"
    by (simp add: handleKey_def Let_def example_focused_eq focusedProcIndex_def rebuild_procs)
       (simp add: example_procs_eq moveProc_def)
  have k: "map Name (app_procs (handleKey Rev2 example_os (KeyRune (CHR ''K'')) example_focused))
             = [''B'', ''A'', ''C'']"
    by (simp add: handleKey_def Let_def example_focused_eq focusedProcIndex_def rebuild_procs)
       (simp add: example_procs_eq moveProc_def)
  show ?thesis
    using move_pane_keeps_focus [OF d i, of Rev2 example_os] d i n j k by (auto simp: Let_def)
qed

subsection \<open>Clock and trace of the primitive steps\<close>

lemma emit_simps [simp]:
  "now (emit e w) = now w"
  "trace (emit e w) = trace w @ [(now w, e)]"
  "next_alloc (emit e w) = next_alloc w"
  by (simp_all add: emit_def)

lemma sleep_simps [simp]:
  "now (sleep os d w) = now w + d + oversleep os (now w)"
  "trace (sleep os d w) = trace w @ [(now w, Sleep d)]"
  "next_alloc (sleep os d w) = next_alloc w"
  by (simp_all add: sleep_def emit_def)

lemma killTree_now [simp]: "now (killTree os p sig w) = now w"
  by (simp add: killTree_def split: option.splits)

lemma killTree_next_alloc [simp]: "next_alloc (killTree os p sig w) = next_alloc w"
  by (simp add: killTree_def split: option.splits)

lemma killTree_trace: "trace (killTree os p sig w) = trace w @ map (Pair (now w)) (delivered os p sig)"
  by (simp add: killTree_def delivered_def split: option.splits)

lemma delivered_none: "Cmd p = None \<Longrightarrow> delivered os p sig = []"
  by (simp add: delivered_def killTree_def)

lemma delivered_posix:
  "\<not> goos_windows os \<Longrightarrow> Cmd p = Some c \<Longrightarrow> Process c = Some pid
     \<Longrightarrow> delivered os p sig =
           [case getpgid os pid of Some pgid \<Rightarrow> Kill (- int pgid) sig | None \<Rightarrow> Signal pid sig]"
  by (simp add: delivered_def killTree_def split: option.splits)

lemma delivered_windows:
  "goos_windows os \<Longrightarrow> Cmd p = Some c \<Longrightarrow> Process c = Some pid
     \<Longrightarrow> delivered os p sig = [ProcessKill pid]"
  by (simp add: delivered_def killTree_def)

subsection \<open>The polling loop\<close>

lemma pollExit_now_ge: "now w \<le> now (pollExit os c deadline w)"
proof (induction os c deadline w rule: pollExit.induct)
  case (1 os c deadline w)
  show ?case
  proof (cases "now w < deadline \<and> \<not> exit_seen os c (now w)")
    case True
    then have "pollExit os c deadline w = pollExit os c deadline (sleep os (50 * Millisecond) w)"
      by (subst pollExit.simps) simp
    with 1 True have "now (sleep os (50 * Millisecond) w) \<le> now (pollExit os c deadline w)"
      by simp
    then show ?thesis by simp
  next
    case False
    then show ?thesis by (subst pollExit.simps) auto
  qed
qed

lemma pollExit_next_alloc [simp]: "next_alloc (pollExit os c deadline w) = next_alloc w"
proof (induction os c deadline w rule: pollExit.induct)
  case (1 os c deadline w)
  then show ?case by (subst pollExit.simps) simp
qed

text \<open>The loop only sleeps, 50 ms at a time, each sleep begun before the deadline.\<close>

lemma pollExit_trace:
  "\<exists>evs. trace (pollExit os c deadline w) = trace w @ evs
     \<and> (\<forall>x\<in>set evs. snd x = Sleep (50 * Millisecond) \<and> now w \<le> fst x \<and> fst x < deadline)"
proof (induction os c deadline w rule: pollExit.induct)
  case (1 os c deadline w)
  show ?case
  proof (cases "now w < deadline \<and> \<not> exit_seen os c (now w)")
    case True
    with 1 obtain evs where
      t: "trace (pollExit os c deadline (sleep os (50 * Millisecond) w))
            = trace (sleep os (50 * Millisecond) w) @ evs"
      and e: "\<forall>x\<in>set evs. snd x = Sleep (50 * Millisecond)
                \<and> now (sleep os (50 * Millisecond) w) \<le> fst x \<and> fst x < deadline"
      by blast
    from True have "pollExit os c deadline w = pollExit os c deadline (sleep os (50 * Millisecond) w)"
      by (subst pollExit.simps) simp
    with t have "trace (pollExit os c deadline w) = trace w @ ((now w, Sleep (50 * Millisecond)) # evs)"
      by simp
    moreover have "\<forall>x\<in>set ((now w, Sleep (50 * Millisecond)) # evs).
        snd x = Sleep (50 * Millisecond) \<and> now w \<le> fst x \<and> fst x < deadline"
      using e True by auto
    ultimately show ?thesis by blast
  next
    case False
    then have "pollExit os c deadline w = w" by (subst pollExit.simps) auto
    then show ?thesis by simp
  qed
qed

text \<open>The loop ends before the deadline only by the \<open>break\<close>.\<close>

lemma pollExit_early:
  "now (pollExit os c deadline w) < deadline \<Longrightarrow> exit_seen os c (now (pollExit os c deadline w))"
proof (induction os c deadline w rule: pollExit.induct)
  case (1 os c deadline w)
  show ?case
  proof (cases "now w < deadline \<and> \<not> exit_seen os c (now w)")
    case True
    then have eq: "pollExit os c deadline w = pollExit os c deadline (sleep os (50 * Millisecond) w)"
      by (subst pollExit.simps) simp
    with 1 True show ?thesis by simp
  next
    case False
    then have eq: "pollExit os c deadline w = w" by (subst pollExit.simps) auto
    with 1(2) False show ?thesis by auto
  qed
qed

text \<open>It ends less than one poll interval after the deadline.\<close>

lemma pollExit_upper:
  "\<forall>t. oversleep os t \<le> J \<Longrightarrow>
     now (pollExit os c deadline w) = now w
     \<or> now (pollExit os c deadline w) < deadline + 50 * Millisecond + J"
proof (induction os c deadline w rule: pollExit.induct)
  case (1 os c deadline w)
  show ?case
  proof (cases "now w < deadline \<and> \<not> exit_seen os c (now w)")
    case True
    then have eq: "pollExit os c deadline w = pollExit os c deadline (sleep os (50 * Millisecond) w)"
      by (subst pollExit.simps) simp
    have "oversleep os (now w) \<le> J" using "1.prems" by simp
    with True have "now (sleep os (50 * Millisecond) w) < deadline + 50 * Millisecond + J"
      by simp
    moreover have "now (pollExit os c deadline (sleep os (50 * Millisecond) w))
                     = now (sleep os (50 * Millisecond) w)
                   \<or> now (pollExit os c deadline (sleep os (50 * Millisecond) w))
                     < deadline + 50 * Millisecond + J"
      using True "1.prems" by (intro "1.IH") auto
    ultimately show ?thesis unfolding eq by auto
  next
    case False
    then have "pollExit os c deadline w = w" by (subst pollExit.simps) auto
    then show ?thesis by simp
  qed
qed

text \<open>While no exit is seen before the deadline, the loop runs to the deadline.\<close>

lemma pollExit_runs_out:
  "\<forall>t<deadline. \<not> exit_seen os c t \<Longrightarrow> deadline \<le> now (pollExit os c deadline w)"
  using pollExit_early [of os c deadline w] by (meson not_le)

text \<open>Once the exit shows from instant \<open>e\<close> on, the loop ends within one poll interval
  of \<open>e\<close> (or did not run at all).\<close>

lemma pollExit_reacts:
  "\<forall>t. oversleep os t \<le> J \<Longrightarrow> \<forall>t\<ge>e. exit_seen os c t \<Longrightarrow>
     now (pollExit os c deadline w) = now w
     \<or> now (pollExit os c deadline w) < e + 50 * Millisecond + J"
proof (induction os c deadline w rule: pollExit.induct)
  case (1 os c deadline w)
  show ?case
  proof (cases "now w < deadline \<and> \<not> exit_seen os c (now w)")
    case True
    then have eq: "pollExit os c deadline w = pollExit os c deadline (sleep os (50 * Millisecond) w)"
      by (subst pollExit.simps) simp
    have "oversleep os (now w) \<le> J" using "1.prems"(1) by simp
    moreover from True "1.prems"(2) have "now w < e" by (meson not_le)
    ultimately have "now (sleep os (50 * Millisecond) w) < e + 50 * Millisecond + J"
      by simp
    moreover have "now (pollExit os c deadline (sleep os (50 * Millisecond) w))
                     = now (sleep os (50 * Millisecond) w)
                   \<or> now (pollExit os c deadline (sleep os (50 * Millisecond) w))
                     < e + 50 * Millisecond + J"
      using True "1.prems" by (intro "1.IH") auto
    ultimately show ?thesis unfolding eq by auto
  next
    case False
    then have "pollExit os c deadline w = w" by (subst pollExit.simps) auto
    then show ?thesis by simp
  qed
qed

subsection \<open>The blocks of a reload\<close>

lemma startProc_now [simp]: "now (snd (snd (startProc os p argv w))) = now w"
  by (simp add: startProc_def Let_def alloc_def split: list.splits sum.splits)

text \<open>A start adds nothing on an error, and otherwise the \<open>Started\<close> event and the three
  goroutines: two copies through one fresh \<open>lockingWriter\<close>, and the exit notice, which
  writes to the view itself.\<close>

lemma startProc_trace:
  "trace (snd (snd (startProc os p argv w))) =
     trace w @
     (case fst (snd (startProc os p argv w)) of p' \<Rightarrow>
        if fst (startProc os p argv w) = Ok then
          map (Pair (now w))
            [Started (the (Cmd p')),
             Go (Copy Stdout (the (Process (the (Cmd p')))) (LockingWriter (next_alloc w) (View p))),
             Go (Copy Stderr (the (Process (the (Cmd p')))) (LockingWriter (next_alloc w) (View p))),
             Go (ExitNotice (the (Process (the (Cmd p')))) (ViewWriter (View p)))]
        else [])"
  by (simp add: startProc_def Let_def alloc_def split: list.splits sum.splits)

lemma startProc_ok:
  assumes "argv \<noteq> []" and "spawn os (command os p argv) (now w) = Inr pid"
  shows "fst (startProc os p argv w) = Ok"
    and "fst (snd (startProc os p argv w)) = p\<lparr>Cmd := Some ((command os p argv)\<lparr>Process := Some pid\<rparr>)\<rparr>"
  using assms by (auto simp: startProc_def Let_def alloc_def split: list.splits)

lemma reload_polled_now_ge: "now w \<le> now (reload_polled os p c w)"
  using pollExit_now_ge [of "killTree os p SIGTERM (emit (Fprintf (View p) (msg_sigterm p)) w)"]
  by (simp add: reload_polled_def Let_def)

lemma reload_polled_trace:
  "\<exists>polls. trace (reload_polled os p c w) =
       trace w @ (now w, Fprintf (View p) (msg_sigterm p))
         # map (Pair (now w)) (delivered os p SIGTERM) @ polls
     \<and> (\<forall>x\<in>set polls. snd x = Sleep (50 * Millisecond) \<and> now w \<le> fst x
           \<and> fst x < now w + 2 * Second)"
  using pollExit_trace [of os c "now w + 2 * Second"
      "killTree os p SIGTERM (emit (Fprintf (View p) (msg_sigterm p)) w)"]
  by (simp add: reload_polled_def Let_def killTree_trace)

lemma reload_polled_early:
  "now (reload_polled os p c w) < now w + 2 * Second
     \<Longrightarrow> exit_seen os c (now (reload_polled os p c w))"
  using pollExit_early [of os c "now w + 2 * Second"
      "killTree os p SIGTERM (emit (Fprintf (View p) (msg_sigterm p)) w)"]
  by (simp add: reload_polled_def Let_def)

lemma reload_polled_upper:
  "\<forall>t. oversleep os t \<le> J
     \<Longrightarrow> now (reload_polled os p c w) < now w + 2 * Second + 50 * Millisecond + J"
  using pollExit_upper [of os J c "now w + 2 * Second"
      "killTree os p SIGTERM (emit (Fprintf (View p) (msg_sigterm p)) w)"]
  by (auto simp: reload_polled_def Let_def Second_def Millisecond_def)

lemma reload_polled_reacts:
  "\<forall>t. oversleep os t \<le> J \<Longrightarrow> \<forall>t\<ge>e. exit_seen os c t
     \<Longrightarrow> now (reload_polled os p c w) = now w
         \<or> now (reload_polled os p c w) < e + 50 * Millisecond + J"
  using pollExit_reacts [of os J e c "now w + 2 * Second"
      "killTree os p SIGTERM (emit (Fprintf (View p) (msg_sigterm p)) w)"]
  by (simp add: reload_polled_def Let_def)

lemma reload_stop_live:
  assumes "Cmd p = Some c" "Process c = Some pid"
  shows "reload_stop os p w =
           (let wc = reload_polled os p c w in
            if exit_seen os c (now wc) then wc
            else sleep os (150 * Millisecond)
                   (killTree os p SIGKILL (emit (Fprintf (View p) (msg_sigkill p)) wc)))"
  using assms by (simp add: reload_stop_def Let_def)

lemma reload_stop_idle:
  "Cmd p = None \<Longrightarrow> reload_stop os p w = w"
  by (simp add: reload_stop_def)

lemma reloadProc_run:
  assumes "Argv p \<noteq> []"
  shows "reloadProc os (Some p) w =
           (Some (fst (snd (startProc os p (Argv p)
                     (emit (Fprintf (View p) (msg_starting p)) (reload_stop os p w))))),
            snd (snd (startProc os p (Argv p)
                     (emit (Fprintf (View p) (msg_starting p)) (reload_stop os p w)))))"
  using assms by (simp add: reloadProc_def Let_def split: prod.splits)

lemma new_events_append [simp]: "trace w' = trace w @ evs \<Longrightarrow> new_events w w' = evs"
  by (simp add: new_events_def)

text \<open>The whole of a reload of a handle with a process and an argument vector. \<open>T\<close> is
  the instant at which the polling loop ends.\<close>

lemma reloadProc_live:
  fixes os :: os and p :: proc and c :: cmd and w :: world
  assumes live: "Cmd p = Some c" "Process c = Some pid" and argv: "Argv p \<noteq> []"
  defines "T \<equiv> now (reload_polled os p c w)"
    and "w' \<equiv> snd (reloadProc os (Some p) w)"
  shows "\<exists>polls started.
           trace w' =
             trace w @
             ((now w, Fprintf (View p) (msg_sigterm p)) # map (Pair (now w)) (delivered os p SIGTERM)
                @ polls)
             @ (if exit_seen os c T then []
                else (T, Fprintf (View p) (msg_sigkill p)) # map (Pair T) (delivered os p SIGKILL)
                       @ [(T, Sleep (150 * Millisecond))])
             @ (now w', Fprintf (View p) (msg_starting p)) # started
         \<and> (\<forall>x\<in>set polls. snd x = Sleep (50 * Millisecond) \<and> now w \<le> fst x
               \<and> fst x < now w + 2 * Second)
         \<and> (\<forall>x\<in>set started. fst x = now w' \<and> (is_started (snd x) \<or> (\<exists>g. snd x = Go g)))
         \<and> (\<forall>pid'. spawn os (command os p (Argv p)) (now w') = Inr pid' \<longrightarrow>
                (now w', Started ((command os p (Argv p))\<lparr>Process := Some pid'\<rparr>)) \<in> set started)"
    and "now w' = (if exit_seen os c T then T else T + 150 * Millisecond + oversleep os T)"
proof -
  let ?wc = "reload_polled os p c w"
  let ?w1 = "reload_stop os p w"
  let ?w2 = "emit (Fprintf (View p) (msg_starting p)) ?w1"
  obtain polls where
    tc: "trace ?wc = trace w @ (now w, Fprintf (View p) (msg_sigterm p))
           # map (Pair (now w)) (delivered os p SIGTERM) @ polls"
    and pc: "\<forall>x\<in>set polls. snd x = Sleep (50 * Millisecond) \<and> now w \<le> fst x
               \<and> fst x < now w + 2 * Second"
    using reload_polled_trace [of os p c w] by blast
  have n1: "now ?w1 = (if exit_seen os c T then T else T + 150 * Millisecond + oversleep os T)"
    by (simp add: reload_stop_live [OF live] Let_def T_def)
  have t1: "trace ?w1 = trace ?wc @
      (if exit_seen os c T then []
       else (T, Fprintf (View p) (msg_sigkill p)) # map (Pair T) (delivered os p SIGKILL)
              @ [(T, Sleep (150 * Millisecond))])"
    by (simp add: reload_stop_live [OF live] Let_def T_def killTree_trace)
  have w': "w' = snd (snd (startProc os p (Argv p) ?w2))"
    by (simp add: w'_def reloadProc_run [OF argv])
  show now': "now w' = (if exit_seen os c T then T else T + 150 * Millisecond + oversleep os T)"
    by (simp add: w' n1)
  define started where "started =
     (case fst (snd (startProc os p (Argv p) ?w2)) of p' \<Rightarrow>
        if fst (startProc os p (Argv p) ?w2) = Ok then
          map (Pair (now ?w2))
            [Started (the (Cmd p')),
             Go (Copy Stdout (the (Process (the (Cmd p')))) (LockingWriter (next_alloc ?w2) (View p))),
             Go (Copy Stderr (the (Process (the (Cmd p')))) (LockingWriter (next_alloc ?w2) (View p))),
             Go (ExitNotice (the (Process (the (Cmd p')))) (ViewWriter (View p)))]
        else [])"
  have t': "trace w' = trace ?w2 @ started"
    unfolding w' started_def by (rule startProc_trace)
  have nw2: "now ?w2 = now w'" by (simp add: w')
  have s: "\<forall>x\<in>set started. fst x = now w' \<and> (is_started (snd x) \<or> (\<exists>g. snd x = Go g))"
    unfolding started_def nw2 by auto
  have ok: "\<forall>pid'. spawn os (command os p (Argv p)) (now w') = Inr pid' \<longrightarrow>
                (now w', Started ((command os p (Argv p))\<lparr>Process := Some pid'\<rparr>)) \<in> set started"
  proof (intro allI impI)
    fix pid' assume "spawn os (command os p (Argv p)) (now w') = Inr pid'"
    then have sp: "spawn os (command os p (Argv p)) (now ?w2) = Inr pid'" by (simp only: nw2)
    show "(now w', Started ((command os p (Argv p))\<lparr>Process := Some pid'\<rparr>)) \<in> set started"
      unfolding started_def nw2 by (simp add: startProc_ok [OF argv sp])
  qed
  have "trace w' =
             trace w @
             ((now w, Fprintf (View p) (msg_sigterm p)) # map (Pair (now w)) (delivered os p SIGTERM)
                @ polls)
             @ (if exit_seen os c T then []
                else (T, Fprintf (View p) (msg_sigkill p)) # map (Pair T) (delivered os p SIGKILL)
                       @ [(T, Sleep (150 * Millisecond))])
             @ (now w', Fprintf (View p) (msg_starting p)) # started"
    using t' t1 tc nw2 by simp
  with pc s ok show "\<exists>polls started.
           trace w' =
             trace w @
             ((now w, Fprintf (View p) (msg_sigterm p)) # map (Pair (now w)) (delivered os p SIGTERM)
                @ polls)
             @ (if exit_seen os c T then []
                else (T, Fprintf (View p) (msg_sigkill p)) # map (Pair T) (delivered os p SIGKILL)
                       @ [(T, Sleep (150 * Millisecond))])
             @ (now w', Fprintf (View p) (msg_starting p)) # started
         \<and> (\<forall>x\<in>set polls. snd x = Sleep (50 * Millisecond) \<and> now w \<le> fst x
               \<and> fst x < now w + 2 * Second)
         \<and> (\<forall>x\<in>set started. fst x = now w' \<and> (is_started (snd x) \<or> (\<exists>g. snd x = Go g)))
         \<and> (\<forall>pid'. spawn os (command os p (Argv p)) (now w') = Inr pid' \<longrightarrow>
                (now w', Started ((command os p (Argv p))\<lparr>Process := Some pid'\<rparr>)) \<in> set started)"
    by blast
qed

subsection \<open>The worked configuration, started\<close>

lemma example_os_simps [simp]:
  "goos_windows example_os = False"
  "getpgid example_os pid = Some pid"
  "exit_seen example_os c t = False"
  "oversleep example_os t = 0"
  "run_error example_os = None"
  "environ example_os = [''PATH=/bin'']"
  "spawn example_os c t = Inr (4000 + length (Dir_c c) + 10 * (t div Second))"
  by (simp_all add: example_os_def)

lemma example_argvs_eq:
  "example_argvs = [[''sh'', ''-c'', ''echo A; sleep 60''], [''sh'', ''-c'', ''echo B; sleep 60''],
       [''sh'', ''-c'', ''echo C; sleep 60'']]"
  by (simp add: example_argvs_def example_made)

lemma example_started_eq:
  "app_procs example_started =
     [\<lparr>Name = ''A'', Dir = ''a'', Cmd = Some (example_cmd ''A'' ''a'' 4001), View = 1,
       Container = Some 2, Follow = True, Argv = [''sh'', ''-c'', ''echo A; sleep 60'']\<rparr>,
      \<lparr>Name = ''B'', Dir = ''bb'', Cmd = Some (example_cmd ''B'' ''bb'' 4002), View = 3,
       Container = Some 4, Follow = False, Argv = [''sh'', ''-c'', ''echo B; sleep 60'']\<rparr>,
      \<lparr>Name = ''C'', Dir = ''ccc'', Cmd = Some (example_cmd ''C'' ''ccc'' 4003), View = 5,
       Container = Some 6, Follow = True, Argv = [''sh'', ''-c'', ''echo C; sleep 60'']\<rparr>]"
  "now (app_world example_started) = 120 * Millisecond"
  "next_alloc (app_world example_started) = 14"
  "app_focus example_started = Some 7"
  unfolding example_started_def startup_def example_idle_eq example_procs_eq example_argvs_eq
  by (simp_all add: startProc_def command_def Let_def alloc_def sleep_def emit_def Second_def
      Millisecond_def example_cmd_def)

lemma example_B_eq:
  "example_B = \<lparr>Name = ''B'', Dir = ''bb'', Cmd = Some (example_cmd ''B'' ''bb'' 4002), View = 3,
       Container = Some 4, Follow = False, Argv = [''sh'', ''-c'', ''echo B; sleep 60'']\<rparr>"
  by (simp add: example_B_def example_started_eq)

lemma example_w_now: "now example_w = 120 * Millisecond"
  by (simp add: example_w_def example_started_eq)

subsection \<open>Exact clocks\<close>

text \<open>With exact sleeps, and no exit seen at any poll before a deadline that is a whole
  number of poll intervals away, the loop ends exactly at the deadline.\<close>

lemma pollExit_exact:
  "\<forall>t. oversleep os t = 0
     \<Longrightarrow> \<forall>k. now w + k * (50 * Millisecond) < deadline
            \<longrightarrow> \<not> exit_seen os c (now w + k * (50 * Millisecond))
     \<Longrightarrow> now w \<le> deadline \<Longrightarrow> (50 * Millisecond) dvd (deadline - now w)
     \<Longrightarrow> now (pollExit os c deadline w) = deadline"
proof (induction os c deadline w rule: pollExit.induct)
  case (1 os c deadline w)
  show ?case
  proof (cases "now w < deadline")
    case True
    let ?w = "sleep os (50 * Millisecond) w"
    from "1.prems"(2) [rule_format, of 0] True have unseen: "\<not> exit_seen os c (now w)" by simp
    then have eq: "pollExit os c deadline w = pollExit os c deadline ?w"
      using True by (subst pollExit.simps) simp
    have n: "now ?w = now w + 50 * Millisecond" using "1.prems"(1) by simp
    from "1.prems"(4) obtain m where m: "deadline - now w = 50 * Millisecond * m" by (auto elim: dvdE)
    with True have "m \<noteq> 0" by (cases m) auto
    then obtain m' where m': "m = Suc m'" by (cases m) auto
    have le: "now ?w \<le> deadline" using m m' n by (simp add: Millisecond_def)
    have "deadline - now ?w = 50 * Millisecond * m'" using m m' n by (simp add: Millisecond_def)
    then have dv: "(50 * Millisecond) dvd (deadline - now ?w)" by simp
    have later: "\<forall>k. now ?w + k * (50 * Millisecond) < deadline
            \<longrightarrow> \<not> exit_seen os c (now ?w + k * (50 * Millisecond))"
    proof (intro allI impI)
      fix k assume "now ?w + k * (50 * Millisecond) < deadline"
      then have "now w + Suc k * (50 * Millisecond) < deadline" using n by simp
      with "1.prems"(2) have "\<not> exit_seen os c (now w + Suc k * (50 * Millisecond))" by blast
      then show "\<not> exit_seen os c (now ?w + k * (50 * Millisecond))" using n by (simp add: add.assoc)
    qed
    have "now (pollExit os c deadline ?w) = deadline"
      using True unseen "1.prems"(1) later le dv by (intro "1.IH") auto
    with eq show ?thesis by simp
  next
    case False
    then have "pollExit os c deadline w = w" by (subst pollExit.simps) simp
    with False "1.prems"(3) show ?thesis by simp
  qed
qed

subsection \<open>A reload only appends to the view\<close>

lemma delivered_kinds:
  "e \<in> set (delivered os p sig) \<Longrightarrow> (\<exists>g. e = Kill g sig) \<or> (\<exists>pid. e = Signal pid sig) \<or> (\<exists>pid. e = ProcessKill pid)"
  by (auto simp: delivered_def killTree_def split: option.splits if_splits)

lemma delivered_not_clear: "e \<in> set (delivered os p sig) \<Longrightarrow> \<not> is_clear e"
  by (auto dest: delivered_kinds)

lemma view_text_grows:
  "\<forall>x\<in>set evs. \<not> is_clear (snd x) \<Longrightarrow> \<exists>added. foldl (view_step v) s evs = s @ added"
proof (induction evs arbitrary: s)
  case Nil
  then show ?case by simp
next
  case (Cons x evs)
  obtain t e where x: "x = (t, e)" by (cases x)
  from Cons.prems x have "\<not> is_clear e" by simp
  then have "\<exists>a. view_step v s (t, e) = s @ a" by (cases e) auto
  then obtain a where a: "view_step v s (t, e) = s @ a" by blast
  from Cons.prems have "\<exists>added. foldl (view_step v) (s @ a) evs = (s @ a) @ added"
    by (intro Cons.IH) simp
  with a x show ?case by auto
qed

lemma view_text_append:
  "\<forall>x\<in>set evs. \<not> is_clear (snd x)
     \<Longrightarrow> \<exists>added. view_text v (tr @ evs) = view_text v tr @ added"
  by (simp add: view_text_def view_text_grows)

lemma reload_stop_appends:
  "\<exists>evs. trace (reload_stop os p w) = trace w @ evs \<and> (\<forall>x\<in>set evs. \<not> is_clear (snd x))"
proof (cases "\<exists>c pid. Cmd p = Some c \<and> Process c = Some pid")
  case True
  then obtain c pid where live: "Cmd p = Some c" "Process c = Some pid" by blast
  obtain polls where
    tc: "trace (reload_polled os p c w) = trace w @ (now w, Fprintf (View p) (msg_sigterm p))
           # map (Pair (now w)) (delivered os p SIGTERM) @ polls"
    and pc: "\<forall>x\<in>set polls. snd x = Sleep (50 * Millisecond) \<and> now w \<le> fst x
               \<and> fst x < now w + 2 * Second"
    using reload_polled_trace [of os p c w] by blast
  let ?T = "now (reload_polled os p c w)"
  let ?evs = "((now w, Fprintf (View p) (msg_sigterm p)) # map (Pair (now w)) (delivered os p SIGTERM)
                @ polls)
             @ (if exit_seen os c ?T then []
                else (?T, Fprintf (View p) (msg_sigkill p)) # map (Pair ?T) (delivered os p SIGKILL)
                       @ [(?T, Sleep (150 * Millisecond))])"
  have "trace (reload_stop os p w) = trace w @ ?evs"
    by (simp add: reload_stop_live [OF live] Let_def killTree_trace tc)
  moreover have "\<forall>x\<in>set ?evs. \<not> is_clear (snd x)"
    using pc by (auto dest: delivered_not_clear)
  ultimately show ?thesis by blast
next
  case False
  then have "reload_stop os p w = w"
    by (auto simp: reload_stop_def split: option.splits)
  then show ?thesis by simp
qed

lemma startProc_appends:
  "\<exists>evs. trace (snd (snd (startProc os p argv w))) = trace w @ evs
     \<and> (\<forall>x\<in>set evs. \<not> is_clear (snd x))"
  by (subst startProc_trace) auto

lemma reloadProc_appends:
  "\<exists>evs. trace (snd (reloadProc os (Some p) w)) = trace w @ evs
     \<and> (\<forall>x\<in>set evs. \<not> is_clear (snd x))"
proof (cases "Argv p = []")
  case True
  then have "trace (snd (reloadProc os (Some p) w)) = trace w @ [(now w, Fprintf (View p) (msg_no_argv p))]"
    by (simp add: reloadProc_def)
  then show ?thesis by auto
next
  case False
  let ?w1 = "reload_stop os p w"
  let ?w2 = "emit (Fprintf (View p) (msg_starting p)) ?w1"
  obtain e1 where e1: "trace ?w1 = trace w @ e1" "\<forall>x\<in>set e1. \<not> is_clear (snd x)"
    using reload_stop_appends [of os p w] by blast
  obtain e3 where e3: "trace (snd (snd (startProc os p (Argv p) ?w2))) = trace ?w2 @ e3"
      "\<forall>x\<in>set e3. \<not> is_clear (snd x)"
    using startProc_appends [of os p "Argv p" ?w2] by blast
  have "trace (snd (reloadProc os (Some p) w))
          = trace w @ (e1 @ (now ?w1, Fprintf (View p) (msg_starting p)) # e3)"
    using e1 e3 by (simp add: reloadProc_run [OF False])
  moreover have "\<forall>x\<in>set (e1 @ (now ?w1, Fprintf (View p) (msg_starting p)) # e3). \<not> is_clear (snd x)"
    using e1 e3 by auto
  ultimately show ?thesis by blast
qed

text \<open>
  Claim C8. For a handle with a recorded argument vector, a reload gives back the same
  handle with at most \<open>Cmd\<close> changed: the name, the view and the follow flag (and the
  directory, the container and the argument vector) are as before. The reload never clears
  the view, so the text it held is a prefix of the text it holds afterwards.
\<close>

theorem reload_preserves_identity:
  assumes "Argv p \<noteq> []"
  shows "\<exists>p' w'. reloadProc os (Some p) w = (Some p', w')
           \<and> Name p' = Name p \<and> View p' = View p \<and> Follow p' = Follow p
           \<and> p' = p\<lparr>Cmd := Cmd p'\<rparr>
           \<and> (\<exists>added. view_text (View p) (trace w') = view_text (View p) (trace w) @ added)"
proof -
  obtain po w' where r: "reloadProc os (Some p) w = (po, w')" by (cases "reloadProc os (Some p) w")
  from reloadProc_frame [OF r] obtain p' where po: "po = Some p'" and fr: "p' = p\<lparr>Cmd := Cmd p'\<rparr>"
    by blast
  from fr have fields: "Name p' = Name p" "View p' = View p" "Follow p' = Follow p"
    by (metis proc.select_convs(1) proc.surjective proc.update_convs(3),
        metis proc.select_convs(4) proc.surjective proc.update_convs(3),
        metis proc.select_convs(6) proc.surjective proc.update_convs(3))
  obtain evs where "trace w' = trace w @ evs" "\<forall>x\<in>set evs. \<not> is_clear (snd x)"
    using reloadProc_appends [of os p w] r by auto
  then have "\<exists>added. view_text (View p) (trace w') = view_text (View p) (trace w) @ added"
    by (simp add: view_text_append)
  with r po fr fields show ?thesis by blast
qed

lemma reload_polled_exact:
  assumes "\<forall>t. oversleep os t = 0"
    and "\<forall>k. now w + k * (50 * Millisecond) < now w + 2 * Second
            \<longrightarrow> \<not> exit_seen os c (now w + k * (50 * Millisecond))"
  shows "now (reload_polled os p c w) = now w + 2 * Second"
proof -
  let ?wb = "killTree os p SIGTERM (emit (Fprintf (View p) (msg_sigterm p)) w)"
  have "(50 * Millisecond) dvd (2 * Second)" by (simp add: Second_def)
  then have "now (pollExit os c (now ?wb + 2 * Second) ?wb) = now ?wb + 2 * Second"
    using assms by (intro pollExit_exact) simp_all
  then show ?thesis by (simp add: reload_polled_def Let_def)
qed

lemma example_reload_times:
  "now (reload_polled example_os example_B (example_cmd ''B'' ''bb'' 4002) example_w) = 2120 * Millisecond"
  "now (reload_stop example_os example_B example_w) = 2270 * Millisecond"
proof -
  show T: "now (reload_polled example_os example_B (example_cmd ''B'' ''bb'' 4002) example_w)
          = 2120 * Millisecond"
    by (subst reload_polled_exact) (simp_all add: example_w_now Second_def)
  have live: "Cmd example_B = Some (example_cmd ''B'' ''bb'' 4002)"
      "Process (example_cmd ''B'' ''bb'' 4002) = Some 4002"
    by (simp_all add: example_B_eq example_cmd_def)
  show "now (reload_stop example_os example_B example_w) = 2270 * Millisecond"
    by (simp add: reload_stop_live [OF live] Let_def T)
qed

theorem reload_preserves_identity_witness:
  "Argv example_B \<noteq> []
   \<and> Cmd example_B = Some (example_cmd ''B'' ''bb'' 4002)
   \<and> fst (reloadProc example_os (Some example_B) example_w)
       = Some (example_B\<lparr>Cmd := Some (example_cmd ''B'' ''bb'' 4022)\<rparr>)
   \<and> Name (the (fst (reloadProc example_os (Some example_B) example_w))) = ''B''
   \<and> View (the (fst (reloadProc example_os (Some example_B) example_w))) = 3
   \<and> Follow (the (fst (reloadProc example_os (Some example_B) example_w))) = False"
proof -
  have a: "Argv example_B \<noteq> []" by (simp add: example_B_eq)
  have c: "Cmd example_B = Some (example_cmd ''B'' ''bb'' 4002)" by (simp add: example_B_eq)
  let ?w2 = "emit (Fprintf (View example_B) (msg_starting example_B))
               (reload_stop example_os example_B example_w)"
  have "spawn example_os (command example_os example_B (Argv example_B)) (now ?w2) = Inr 4022"
    by (simp add: example_reload_times) (simp add: command_def example_B_eq Second_def Millisecond_def)
  from startProc_ok(2) [OF a this]
  have "Cmd (the (fst (reloadProc example_os (Some example_B) example_w)))
          = Some (example_cmd ''B'' ''bb'' 4022)"
    by (simp add: reloadProc_run [OF a]) (simp add: command_def example_B_eq example_cmd_def)
  with reload_preserves_identity [OF a, of example_os example_w] a c show ?thesis
    by (auto simp: example_B_eq)
qed

subsection \<open>Claims about reload\<close>

lemma reload_polled_sees:
  assumes "\<forall>t\<ge>e. exit_seen os c t" and "e \<le> now w + 2 * Second"
  shows "exit_seen os c (now (reload_polled os p c w))"
proof (cases "now (reload_polled os p c w) < now w + 2 * Second")
  case True
  then show ?thesis by (rule reload_polled_early)
next
  case False
  with assms(2) have "e \<le> now (reload_polled os p c w)" by simp
  with assms(1) show ?thesis by blast
qed

lemma delivered_graceful:
  assumes "\<not> goos_windows os" "Cmd p = Some c" "Process c = Some pid"
  shows "\<exists>g. delivered os p SIGTERM = [g] \<and> is_graceful g \<and> \<not> is_started g"
  using delivered_posix [OF assms, of SIGTERM] by (auto split: option.splits)

lemma delivered_forceful:
  assumes "\<not> goos_windows os" "Cmd p = Some c" "Process c = Some pid"
  shows "\<exists>k. delivered os p SIGKILL = [k] \<and> is_forceful k \<and> \<not> is_started k"
  using delivered_posix [OF assms, of SIGKILL] by (auto split: option.splits)

lemma start_events_quiet:
  "is_started e \<or> (\<exists>g. e = Go g) \<Longrightarrow> \<not> is_graceful e \<and> \<not> is_forceful e \<and> \<not> is_sleep e"
  by (cases e) auto

text \<open>
  Claim C2, as the code has it. On a POSIX system, the reload of a handle with a process and
  an argument vector first prints its notice and sends \<open>SIGTERM\<close>, then polls. Let \<open>T\<close>
  be the instant the polling ends. If the exit has been seen at \<open>T\<close>, nothing forceful is
  sent and the replacement is started at \<open>T\<close>. Otherwise \<open>T\<close> is at or after the 2 s
  deadline, \<open>SIGKILL\<close> is sent at \<open>T\<close>, the reload sleeps 150 ms and then starts the
  replacement without reading \<open>ProcessState\<close> again. In both cases every signal and every
  sleep precedes the start, and a successful spawn is recorded after the starting notice.
\<close>

theorem reload_stops_then_starts:
  fixes os :: os and p :: proc and c :: cmd and w :: world
  assumes live: "Cmd p = Some c" "Process c = Some pid" and argv: "Argv p \<noteq> []"
    and posix: "\<not> goos_windows os"
  defines "T \<equiv> now (reload_polled os p c w)"
    and "w' \<equiv> snd (reloadProc os (Some p) w)"
  shows "\<exists>g before after.
           new_events w w' =
             (now w, Fprintf (View p) (msg_sigterm p)) # (now w, g) # before
               @ (now w', Fprintf (View p) (msg_starting p)) # after
         \<and> is_graceful g
         \<and> (\<forall>x\<in>set before. \<not> is_started (snd x))
         \<and> (\<forall>x\<in>set after. fst x = now w' \<and> \<not> is_graceful (snd x) \<and> \<not> is_forceful (snd x)
               \<and> \<not> is_sleep (snd x))
         \<and> (\<forall>pid'. spawn os (command os p (Argv p)) (now w') = Inr pid' \<longrightarrow>
               (now w', Started ((command os p (Argv p))\<lparr>Process := Some pid'\<rparr>)) \<in> set after)
         \<and> (if exit_seen os c T
            then (\<forall>x\<in>set before. \<not> is_forceful (snd x)) \<and> now w' = T
            else now w + 2 * Second \<le> T
               \<and> (\<exists>k. is_forceful k \<and> (T, k) \<in> set before)
               \<and> (T, Sleep (150 * Millisecond)) \<in> set before
               \<and> now w' = T + 150 * Millisecond + oversleep os T)"
proof -
  obtain g where g: "delivered os p SIGTERM = [g]" "is_graceful g"
    using delivered_graceful [OF posix live] by blast
  obtain k where k: "delivered os p SIGKILL = [k]" "is_forceful k" "\<not> is_started k"
    using delivered_forceful [OF posix live] by blast
  let ?K = "if exit_seen os c T then []
            else (T, Fprintf (View p) (msg_sigkill p)) # map (Pair T) (delivered os p SIGKILL)
                   @ [(T, Sleep (150 * Millisecond))]"
  obtain polls started where
    tr: "trace w' = trace w @
           ((now w, Fprintf (View p) (msg_sigterm p)) # map (Pair (now w)) (delivered os p SIGTERM)
              @ polls) @ ?K @ (now w', Fprintf (View p) (msg_starting p)) # started"
    and polls: "\<forall>x\<in>set polls. snd x = Sleep (50 * Millisecond) \<and> now w \<le> fst x
                  \<and> fst x < now w + 2 * Second"
    and started: "\<forall>x\<in>set started. fst x = now w' \<and> (is_started (snd x) \<or> (\<exists>g. snd x = Go g))"
    and ok: "\<forall>pid'. spawn os (command os p (Argv p)) (now w') = Inr pid' \<longrightarrow>
               (now w', Started ((command os p (Argv p))\<lparr>Process := Some pid'\<rparr>)) \<in> set started"
    using reloadProc_live(1) [OF live argv, of os w] unfolding T_def w'_def by blast
  have now': "now w' = (if exit_seen os c T then T else T + 150 * Millisecond + oversleep os T)"
    using reloadProc_live(2) [OF live argv, of os w] unfolding T_def w'_def .
  have new: "new_events w w' =
      (now w, Fprintf (View p) (msg_sigterm p)) # (now w, g) # (polls @ ?K)
        @ (now w', Fprintf (View p) (msg_starting p)) # started"
    using tr g by (simp add: new_events_def)
  have b1: "\<forall>x\<in>set (polls @ ?K). \<not> is_started (snd x)"
    using polls k by auto
  have a1: "\<forall>x\<in>set started. fst x = now w' \<and> \<not> is_graceful (snd x) \<and> \<not> is_forceful (snd x)
               \<and> \<not> is_sleep (snd x)"
    using started start_events_quiet by blast
  have path: "if exit_seen os c T
            then (\<forall>x\<in>set (polls @ ?K). \<not> is_forceful (snd x)) \<and> now w' = T
            else now w + 2 * Second \<le> T
               \<and> (\<exists>k. is_forceful k \<and> (T, k) \<in> set (polls @ ?K))
               \<and> (T, Sleep (150 * Millisecond)) \<in> set (polls @ ?K)
               \<and> now w' = T + 150 * Millisecond + oversleep os T"
  proof (cases "exit_seen os c T")
    case True
    then show ?thesis using polls now' by auto
  next
    case False
    then have "\<not> T < now w + 2 * Second"
      using reload_polled_early [of os p c w] by (auto simp: T_def)
    then show ?thesis using False now' k by auto
  qed
  from new g(2) b1 a1 ok path show ?thesis by blast
qed

lemma example_B_live:
  "Cmd example_B = Some (example_cmd ''B'' ''bb'' 4002)"
  "Process (example_cmd ''B'' ''bb'' 4002) = Some 4002"
  "Argv example_B \<noteq> []"
  by (simp_all add: example_B_eq example_cmd_def)

lemma example_B_restart:
  "now (snd (reloadProc example_os (Some example_B) example_w)) = 2270 * Millisecond"
  "spawn example_os (command example_os example_B (Argv example_B)) (2270 * Millisecond) = Inr 4022"
  "(command example_os example_B (Argv example_B))\<lparr>Process := Some 4022\<rparr> = example_cmd ''B'' ''bb'' 4022"
proof -
  show "now (snd (reloadProc example_os (Some example_B) example_w)) = 2270 * Millisecond"
    using reloadProc_live(2) [OF example_B_live, of example_os example_w]
    by (simp add: example_reload_times Millisecond_def)
  show "spawn example_os (command example_os example_B (Argv example_B)) (2270 * Millisecond) = Inr 4022"
    by (simp add: command_def example_B_eq Second_def Millisecond_def)
  show "(command example_os example_B (Argv example_B))\<lparr>Process := Some 4022\<rparr> = example_cmd ''B'' ''bb'' 4022"
    by (simp add: command_def example_B_eq example_cmd_def)
qed

theorem reload_stops_then_starts_witness:
  "\<not> goos_windows example_os
   \<and> Cmd example_B = Some (example_cmd ''B'' ''bb'' 4002)
   \<and> Process (example_cmd ''B'' ''bb'' 4002) = Some 4002
   \<and> Argv example_B \<noteq> []
   \<and> \<not> exit_seen example_os (example_cmd ''B'' ''bb'' 4002)
         (now (reload_polled example_os example_B (example_cmd ''B'' ''bb'' 4002) example_w))
   \<and> now example_w + 2 * Second
        \<le> now (reload_polled example_os example_B (example_cmd ''B'' ''bb'' 4002) example_w)
   \<and> now (snd (reloadProc example_os (Some example_B) example_w))
        = now (reload_polled example_os example_B (example_cmd ''B'' ''bb'' 4002) example_w)
            + 150 * Millisecond
   \<and> exit_seen example_os_early (example_cmd ''B'' ''bb'' 4002)
         (now (reload_polled example_os_early example_B (example_cmd ''B'' ''bb'' 4002) example_w))
   \<and> now (snd (reloadProc example_os_early (Some example_B) example_w))
        = now (reload_polled example_os_early example_B (example_cmd ''B'' ''bb'' 4002) example_w)"
proof -
  have posix: "\<not> goos_windows example_os" by simp
  have posix': "\<not> goos_windows example_os_early"
    by (simp add: example_os_early_def example_os_def)
  have seen: "exit_seen example_os_early (example_cmd ''B'' ''bb'' 4002)
         (now (reload_polled example_os_early example_B (example_cmd ''B'' ''bb'' 4002) example_w))"
    by (rule reload_polled_sees [where e = "1000 * Millisecond"])
       (simp_all add: example_os_early_def example_os_def example_w_now Second_def)
  show ?thesis
    using reload_stops_then_starts [OF example_B_live posix, of example_w]
      reload_stops_then_starts [OF example_B_live posix', of example_w]
      example_B_live posix seen
    by auto
qed

text \<open>The claim as the specification states it fails for a child that is still not seen
  to have exited 150 ms after \<open>SIGKILL\<close>: the replacement, pid 4022, is started at 2270 ms
  while \<open>ProcessState\<close> of the old process, pid 4002, is still \<open>nil\<close>.\<close>

theorem reload_stops_then_starts_counterexample:
  "Cmd example_B = Some (example_cmd ''B'' ''bb'' 4002)
   \<and> (2270 * Millisecond, Started (example_cmd ''B'' ''bb'' 4022))
        \<in> set (new_events example_w (snd (reloadProc example_os (Some example_B) example_w)))
   \<and> \<not> exit_seen example_os (example_cmd ''B'' ''bb'' 4002) (2270 * Millisecond)"
proof -
  let ?w' = "snd (reloadProc example_os (Some example_B) example_w)"
  let ?c = "example_cmd ''B'' ''bb'' 4002"
  let ?T = "now (reload_polled example_os example_B ?c example_w)"
  obtain polls started where
    tr: "trace ?w' = trace example_w @
           ((now example_w, Fprintf (View example_B) (msg_sigterm example_B))
              # map (Pair (now example_w)) (delivered example_os example_B SIGTERM) @ polls)
           @ (if exit_seen example_os ?c ?T then []
              else (?T, Fprintf (View example_B) (msg_sigkill example_B))
                     # map (Pair ?T) (delivered example_os example_B SIGKILL)
                     @ [(?T, Sleep (150 * Millisecond))])
           @ (now ?w', Fprintf (View example_B) (msg_starting example_B)) # started"
    and ok: "\<forall>pid'. spawn example_os (command example_os example_B (Argv example_B)) (now ?w') = Inr pid' \<longrightarrow>
               (now ?w', Started ((command example_os example_B (Argv example_B))\<lparr>Process := Some pid'\<rparr>))
                 \<in> set started"
    using reloadProc_live(1) [OF example_B_live, of example_os example_w] by blast
  have sp: "spawn example_os (command example_os example_B (Argv example_B)) (now ?w') = Inr 4022"
    unfolding example_B_restart(1) by (rule example_B_restart(2))
  from ok sp have "(now ?w', Started ((command example_os example_B (Argv example_B))\<lparr>Process := Some 4022\<rparr>))
                 \<in> set started"
    by blast
  then have "(2270 * Millisecond, Started (example_cmd ''B'' ''bb'' 4022)) \<in> set started"
    unfolding example_B_restart(1) example_B_restart(3) .
  then have "(2270 * Millisecond, Started (example_cmd ''B'' ''bb'' 4022)) \<in> set (new_events example_w ?w')"
    using tr by (simp add: new_events_def)
  then show ?thesis using example_B_live by simp
qed

lemma graceful_not_forceful: "is_graceful e \<Longrightarrow> \<not> is_forceful e"
  by (cases e) auto

text \<open>
  Claim C4, as the code has it. On a POSIX system, with every sleep overrunning by at most
  \<open>J\<close>, let \<open>T\<close> be the instant the polling of a reload ends.
  \<^item> If the exit is not seen up to the deadline plus one poll interval (50 ms and the
    overrun), the reload sends its one forceful signal at \<open>T\<close>, no earlier than 2 s after
    the \<open>SIGTERM\<close> and less than one poll interval after those 2 s.
  \<^item> If the exit shows from some instant \<open>e\<close> on, \<open>e\<close> no later than the deadline, nothing
    forceful is sent, and the polling ends less than one poll interval after \<open>e\<close> (or at
    once, when \<open>e\<close> is already past).
  \<^item> So the polling ends before the deadline when \<open>e\<close> is at least one poll interval
    before it. An exit during the last poll interval is seen only at the deadline.
\<close>

theorem reload_escalation_timing:
  fixes os :: os and p :: proc and c :: cmd and w :: world
  assumes live: "Cmd p = Some c" "Process c = Some pid" and argv: "Argv p \<noteq> []"
    and posix: "\<not> goos_windows os" and jitter: "\<forall>t. oversleep os t \<le> J"
  defines "T \<equiv> now (reload_polled os p c w)"
    and "new \<equiv> new_events w (snd (reloadProc os (Some p) w))"
  shows "((\<forall>t < now w + 2 * Second + 50 * Millisecond + J. \<not> exit_seen os c t) \<longrightarrow>
            (\<exists>k. is_forceful k \<and> (T, k) \<in> set new)
          \<and> (\<forall>x\<in>set new. is_forceful (snd x) \<longrightarrow> fst x = T)
          \<and> now w + 2 * Second \<le> T \<and> T < now w + 2 * Second + 50 * Millisecond + J)
       \<and> (\<forall>e. (\<forall>t\<ge>e. exit_seen os c t) \<and> e \<le> now w + 2 * Second \<longrightarrow>
            (\<forall>x\<in>set new. \<not> is_forceful (snd x))
          \<and> T < max e (now w) + 50 * Millisecond + J)
       \<and> (\<forall>e. (\<forall>t\<ge>e. exit_seen os c t) \<and> e + 50 * Millisecond + J \<le> now w + 2 * Second \<longrightarrow>
            T < now w + 2 * Second)"
proof -
  let ?w' = "snd (reloadProc os (Some p) w)"
  obtain g where g: "delivered os p SIGTERM = [g]" "is_graceful g"
    using delivered_graceful [OF posix live] by blast
  obtain k where k: "delivered os p SIGKILL = [k]" "is_forceful k"
    using delivered_forceful [OF posix live] by blast
  let ?K = "if exit_seen os c T then []
            else (T, Fprintf (View p) (msg_sigkill p)) # map (Pair T) (delivered os p SIGKILL)
                   @ [(T, Sleep (150 * Millisecond))]"
  obtain polls started where
    tr: "trace ?w' = trace w @
           ((now w, Fprintf (View p) (msg_sigterm p)) # map (Pair (now w)) (delivered os p SIGTERM)
              @ polls) @ ?K @ (now ?w', Fprintf (View p) (msg_starting p)) # started"
    and polls: "\<forall>x\<in>set polls. snd x = Sleep (50 * Millisecond) \<and> now w \<le> fst x
                  \<and> fst x < now w + 2 * Second"
    and started: "\<forall>x\<in>set started. fst x = now ?w' \<and> (is_started (snd x) \<or> (\<exists>g. snd x = Go g))"
    using reloadProc_live(1) [OF live argv, of os w] unfolding T_def by blast
  have new: "new = (now w, Fprintf (View p) (msg_sigterm p)) # (now w, g) # polls @ ?K
                     @ (now ?w', Fprintf (View p) (msg_starting p)) # started"
    using tr g by (simp add: new_def new_events_def)
  have quiet: "\<forall>x\<in>set started. \<not> is_forceful (snd x)"
    using started start_events_quiet by blast
  have calm: "\<forall>x\<in>set polls. \<not> is_forceful (snd x)"
    using polls by auto
  have g': "\<not> is_forceful g" using g(2) by (rule graceful_not_forceful)
  have only: "\<forall>x\<in>set new. is_forceful (snd x) \<longrightarrow> fst x = T"
    unfolding new using quiet calm g' by auto
  have none: "exit_seen os c T \<Longrightarrow> \<forall>x\<in>set new. \<not> is_forceful (snd x)"
    unfolding new using quiet calm g' by auto
  have some: "\<not> exit_seen os c T \<Longrightarrow> (T, k) \<in> set new"
    unfolding new using k by simp
  have upper: "T < now w + 2 * Second + 50 * Millisecond + J"
    unfolding T_def using jitter by (rule reload_polled_upper)
  have ms: "0 < Millisecond" by (simp add: Millisecond_def)
  show ?thesis
  proof (intro conjI allI impI)
    assume ign: "\<forall>t < now w + 2 * Second + 50 * Millisecond + J. \<not> exit_seen os c t"
    with upper have unseen: "\<not> exit_seen os c T" by blast
    with some k(2) show "\<exists>k. is_forceful k \<and> (T, k) \<in> set new" by blast
    from only show "\<forall>x\<in>set new. is_forceful (snd x) \<longrightarrow> fst x = T" .
    from unseen show "now w + 2 * Second \<le> T"
      using reload_polled_early [of os p c w] unfolding T_def by (meson not_le)
    from upper show "T < now w + 2 * Second + 50 * Millisecond + J" .
  next
    fix e assume e: "(\<forall>t\<ge>e. exit_seen os c t) \<and> e \<le> now w + 2 * Second"
    have "exit_seen os c T"
    proof (cases "T < now w + 2 * Second")
      case True
      then show ?thesis using reload_polled_early [of os p c w] unfolding T_def by blast
    next
      case False
      with e have "e \<le> T" by simp
      with e show ?thesis by blast
    qed
    then show "\<forall>x\<in>set new. \<not> is_forceful (snd x)" by (rule none)
    from e jitter have "T = now w \<or> T < e + 50 * Millisecond + J"
      unfolding T_def by (intro reload_polled_reacts) auto
    with ms show "T < max e (now w) + 50 * Millisecond + J" by auto
  next
    fix e assume e: "(\<forall>t\<ge>e. exit_seen os c t) \<and> e + 50 * Millisecond + J \<le> now w + 2 * Second"
    from e jitter have "T = now w \<or> T < e + 50 * Millisecond + J"
      unfolding T_def by (intro reload_polled_reacts) auto
    with e ms show "T < now w + 2 * Second" by (auto simp: Second_def)
  qed
qed

lemma example_os_late_simps [simp]:
  "goos_windows example_os_late = False"
  "getpgid example_os_late pid = Some pid"
  "exit_seen example_os_late c t = (2095 * Millisecond \<le> t)"
  "oversleep example_os_late t = 0"
  by (simp_all add: example_os_late_def example_os_def)

lemma example_os_early_simps [simp]:
  "goos_windows example_os_early = False"
  "getpgid example_os_early pid = Some pid"
  "exit_seen example_os_early c t = (1000 * Millisecond \<le> t)"
  "oversleep example_os_early t = 0"
  by (simp_all add: example_os_early_def example_os_def)

theorem reload_escalation_timing_witness:
  "\<not> goos_windows example_os
   \<and> Cmd example_B = Some (example_cmd ''B'' ''bb'' 4002)
   \<and> Process (example_cmd ''B'' ''bb'' 4002) = Some 4002
   \<and> Argv example_B \<noteq> []
   \<and> now example_w + 2 * Second
        \<le> now (reload_polled example_os example_B (example_cmd ''B'' ''bb'' 4002) example_w)
   \<and> now (reload_polled example_os example_B (example_cmd ''B'' ''bb'' 4002) example_w)
        < now example_w + 2 * Second + 50 * Millisecond
   \<and> filter (is_forceful \<circ> snd)
        (new_events example_w (snd (reloadProc example_os_late (Some example_B) example_w))) = []
   \<and> now (reload_polled example_os_late example_B (example_cmd ''B'' ''bb'' 4002) example_w)
        < 2095 * Millisecond + 50 * Millisecond
   \<and> now (reload_polled example_os_early example_B (example_cmd ''B'' ''bb'' 4002) example_w)
        < now example_w + 2 * Second"
proof -
  have j: "\<forall>t. oversleep example_os t \<le> 0" by simp
  have jl: "\<forall>t. oversleep example_os_late t \<le> 0" by simp
  have je: "\<forall>t. oversleep example_os_early t \<le> 0" by simp
  have p: "\<not> goos_windows example_os" "\<not> goos_windows example_os_late"
    "\<not> goos_windows example_os_early" by simp_all
  note never = reload_escalation_timing [OF example_B_live p(1) j, of example_w]
  note late = reload_escalation_timing [OF example_B_live p(2) jl, of example_w]
  note early = reload_escalation_timing [OF example_B_live p(3) je, of example_w]
  have a: "now example_w + 2 * Second
        \<le> now (reload_polled example_os example_B (example_cmd ''B'' ''bb'' 4002) example_w)
      \<and> now (reload_polled example_os example_B (example_cmd ''B'' ''bb'' 4002) example_w)
        < now example_w + 2 * Second + 50 * Millisecond"
    using never by simp
  from late have "(\<forall>t\<ge>2095 * Millisecond. exit_seen example_os_late (example_cmd ''B'' ''bb'' 4002) t)
        \<and> 2095 * Millisecond \<le> now example_w + 2 * Second \<longrightarrow>
      (\<forall>x\<in>set (new_events example_w (snd (reloadProc example_os_late (Some example_B) example_w))).
          \<not> is_forceful (snd x))
      \<and> now (reload_polled example_os_late example_B (example_cmd ''B'' ''bb'' 4002) example_w)
          < max (2095 * Millisecond) (now example_w) + 50 * Millisecond + 0"
    by blast
  then have b: "filter (is_forceful \<circ> snd)
        (new_events example_w (snd (reloadProc example_os_late (Some example_B) example_w))) = []
      \<and> now (reload_polled example_os_late example_B (example_cmd ''B'' ''bb'' 4002) example_w)
          < 2095 * Millisecond + 50 * Millisecond"
    by (simp add: example_w_now Second_def Millisecond_def filter_empty_conv)
  from early have "(\<forall>t\<ge>1000 * Millisecond. exit_seen example_os_early (example_cmd ''B'' ''bb'' 4002) t)
        \<and> 1000 * Millisecond + 50 * Millisecond + 0 \<le> now example_w + 2 * Second \<longrightarrow>
      now (reload_polled example_os_early example_B (example_cmd ''B'' ''bb'' 4002) example_w)
          < now example_w + 2 * Second"
    by blast
  then have c: "now (reload_polled example_os_early example_B (example_cmd ''B'' ''bb'' 4002) example_w)
          < now example_w + 2 * Second"
    by (simp add: example_w_now Second_def Millisecond_def)
  from a b c example_B_live p(1) show ?thesis by simp
qed

text \<open>The claim as the specification states it fails for a child that exits in the last
  poll interval: its exit shows from 2095 ms on, 25 ms before the deadline at 2120 ms, yet
  the polling ends at the deadline, as it does for a child that never exits.\<close>

theorem reload_escalation_timing_counterexample:
  "exit_seen example_os_late (example_cmd ''B'' ''bb'' 4002) (2095 * Millisecond)
   \<and> 2095 * Millisecond < now example_w + 2 * Second
   \<and> now (reload_polled example_os_late example_B (example_cmd ''B'' ''bb'' 4002) example_w)
       = now example_w + 2 * Second"
proof -
  have "\<forall>k. now example_w + k * (50 * Millisecond) < now example_w + 2 * Second
            \<longrightarrow> \<not> exit_seen example_os_late (example_cmd ''B'' ''bb'' 4002)
                    (now example_w + k * (50 * Millisecond))"
    by (simp add: example_w_now Second_def Millisecond_def)
  then have "now (reload_polled example_os_late example_B (example_cmd ''B'' ''bb'' 4002) example_w)
       = now example_w + 2 * Second"
    by (intro reload_polled_exact) simp_all
  then show ?thesis by (simp add: example_w_now Second_def Millisecond_def)
qed

subsection \<open>Shutdown\<close>

lemma killAll_now [simp]: "now (killAll os sig procs w) = now w"
  by (induction procs arbitrary: w) simp_all

lemma killAll_trace:
  "trace (killAll os sig procs w)
     = trace w @ map (Pair (now w)) (concat (map (\<lambda>p. delivered os p sig) procs))"
  by (induction procs arbitrary: w) (simp_all add: killTree_trace)





lemma example_delivered:
  "delivered example_os (app_procs example_started ! 0) sig = [Kill (- 4001) sig]"
  "delivered example_os (app_procs example_started ! Suc 0) sig = [Kill (- 4002) sig]"
  "delivered example_os (app_procs example_started ! 2) sig = [Kill (- 4003) sig]"
  by (simp_all add: example_started_eq delivered_def killTree_def example_cmd_def)


subsection \<open>\<open>main\<close>\<close>

text \<open>When \<open>main\<close> returns after the event loop, the last thing it did is the shutdown
  sequence, once, on the registry as the loop left it.\<close>

lemma supervise_ends_in_shutdown:
  "supervise rv os useDividers procs argvs keys w = (Return, w')
     \<Longrightarrow> \<exists>a::app. w' = shutdown os (app_procs a) (app_world a)"
proof -
  assume r: "supervise rv os useDividers procs argvs keys w = (Return, w')"
  obtain panicked a1 where s: "startup os argvs (attach useDividers procs w) = (panicked, a1)"
    by (cases "startup os argvs (attach useDividers procs w)")
  from r s have "w' = shutdown os (app_procs (run rv os keys a1)) (app_world (run rv os keys a1))"
    by (cases panicked) (auto simp: supervise_def Let_def split: option.splits)
  then show ?thesis by blast
qed

text \<open>
  Claim C5 against the code. With a configuration that loads and declares no process, the
  second revision of \<open>main\<close> prints no diagnostic and does not return early: it builds an
  empty column, runs the start-up goroutine and the event loop, and on quit runs the
  shutdown sequence, which signals nothing but still sleeps its 2 s. The first revision
  returns at once with the diagnostic on the same declarations.
\<close>

theorem empty_configuration:
  "main_rev2 example_os (Inr example_empty) [KeyTAB, KeyRune (CHR ''q'')] example_boot
     = (Return, \<lparr>now = 2120 * Millisecond,
                 trace = [(0, Sleep (120 * Millisecond)), (120 * Millisecond, Sleep (2 * Second))],
                 next_alloc = 3\<rparr>)
   \<and> main_rev1 example_os (Inr []) [KeyTAB, KeyRune (CHR ''q'')] example_boot
     = (Return, \<lparr>now = 0, trace = [(0, Fprintln_stderr diagnostic)], next_alloc = 1\<rparr>)"
proof -
  have made: "makeProcsFromSpecs_rev2 [] \<lparr>now = 0, trace = [], next_alloc = Suc 0\<rparr>
                = ([], [], \<lparr>now = 0, trace = [], next_alloc = Suc 0\<rparr>)"
    by (simp add: makeProcsFromSpecs_rev2_def)
  have att: "attach True [] \<lparr>now = 0, trace = [], next_alloc = Suc 0\<rparr>
      = \<lparr>app_procs = [], app_focus = Some (Suc 0), app_stopped = False, app_dividers = True,
         app_mainArea = Suc 0, app_root = 2, app_world = \<lparr>now = 0, trace = [], next_alloc = 3\<rparr>\<rparr>"
    by (simp add: attach_def buildMainArea_def alloc_def)
  let ?a1 = "\<lparr>app_procs = [], app_focus = Some (Suc 0), app_stopped = False, app_dividers = True,
         app_mainArea = Suc 0, app_root = 2,
         app_world = \<lparr>now = 120 * Millisecond, trace = [(0, Sleep (120 * Millisecond))],
                       next_alloc = 3\<rparr>\<rparr>"
  have st: "startup example_os [] \<lparr>app_procs = [], app_focus = Some (Suc 0), app_stopped = False,
         app_dividers = True, app_mainArea = Suc 0, app_root = 2,
         app_world = \<lparr>now = 0, trace = [], next_alloc = 3\<rparr>\<rparr> = (False, ?a1)"
    by (simp add: startup_def sleep_def emit_def)
  have rn: "run Rev2 example_os [KeyTAB, KeyRune (CHR ''q'')] ?a1 = ?a1\<lparr>app_stopped := True\<rparr>"
    by (simp add: handleKey_def focusedProcIndex_def Let_def)
  have sup: "supervise Rev2 example_os True [] [] [KeyTAB, KeyRune (CHR ''q'')]
               \<lparr>now = 0, trace = [], next_alloc = Suc 0\<rparr>
      = (Return, \<lparr>now = 2120 * Millisecond,
                 trace = [(0, Sleep (120 * Millisecond)), (120 * Millisecond, Sleep (2 * Second))],
                 next_alloc = 3\<rparr>)"
    unfolding supervise_def att Let_def
    by (simp add: st rn shutdown_def sleep_def emit_def del: run.simps)
       (simp add: Second_def Millisecond_def)
  have two: "main_rev2 example_os (Inr example_empty) [KeyTAB, KeyRune (CHR ''q'')] example_boot
     = (Return, \<lparr>now = 2120 * Millisecond,
                 trace = [(0, Sleep (120 * Millisecond)), (120 * Millisecond, Sleep (2 * Second))],
                 next_alloc = 3\<rparr>)"
    by (simp add: main_rev2_def example_empty_def example_boot_def alloc_def made sup)
  have one: "main_rev1 example_os (Inr []) [KeyTAB, KeyRune (CHR ''q'')] example_boot
     = (Return, \<lparr>now = 0, trace = [(0, Fprintln_stderr diagnostic)], next_alloc = 1\<rparr>)"
    by (simp add: main_rev1_def example_boot_def alloc_def emit_def)
  from two one show ?thesis by simp
qed

subsection \<open>Writes through one locking writer do not interleave\<close>

lemma snoc_in_shuffles_left: "ws \<in> shuffles xs ys \<Longrightarrow> ws @ [b] \<in> shuffles (xs @ [b]) ys"
proof (induction xs ys arbitrary: ws rule: shuffles.induct)
  case (1 ys)
  then have "ws = ys" by simp
  then show ?case
    by (induction ys arbitrary: ws) (auto simp: Cons_in_shuffles_iff)
next
  case (2 xs)
  then show ?case by (cases xs) auto
next
  case (3 x xs y ys)
  from "3.prems" consider ws' where "ws = x # ws'" "ws' \<in> shuffles xs (y # ys)"
    | ws' where "ws = y # ws'" "ws' \<in> shuffles (x # xs) ys"
    by auto
  then show ?case
  proof cases
    case 1
    with "3.IH"(1) have "ws' @ [b] \<in> shuffles (xs @ [b]) (y # ys)" by blast
    with 1 show ?thesis by (simp add: Cons_in_shuffles_iff)
  next
    case 2
    with "3.IH"(2) have "ws' @ [b] \<in> shuffles ((x # xs) @ [b]) ys" by blast
    with 2 show ?thesis by (simp add: Cons_in_shuffles_iff)
  qed
qed

lemma snoc_in_shuffles_right: "ws \<in> shuffles xs ys \<Longrightarrow> ws @ [b] \<in> shuffles xs (ys @ [b])"
  using snoc_in_shuffles_left [of ws ys xs b] by (simp add: shuffles_commutes)

lemma lw_inv_new: "lw_inv A B (new_lockingWriter A B)"
  by (simp add: lw_inv_def new_lockingWriter_def in_progress_def)

lemma lw_inv_step:
  assumes "lw_inv A B l"
  shows "lw_inv A B (copy_step s l)"
proof -
  from assms obtain ws where
    a: "finished (stdout_copy l) @ chunk_of (current (stdout_copy l)) @ pending (stdout_copy l) = A"
    and b: "finished (stderr_copy l) @ chunk_of (current (stderr_copy l)) @ pending (stderr_copy l) = B"
    and m: "case mu l of
            None \<Rightarrow> current (stdout_copy l) = None \<and> current (stderr_copy l) = None
          | Some Stdout \<Rightarrow> current (stdout_copy l) \<noteq> None \<and> current (stderr_copy l) = None
          | Some Stderr \<Rightarrow> current (stderr_copy l) \<noteq> None \<and> current (stdout_copy l) = None"
    and ws: "ws \<in> shuffles (finished (stdout_copy l)) (finished (stderr_copy l))"
      "written l = concat ws @ in_progress l"
    by (auto simp: lw_inv_def)
  show ?thesis
  proof (cases s)
    case Stdout
    show ?thesis
    proof (cases "current (stdout_copy l)")
      case None
      show ?thesis
      proof (cases "pending (stdout_copy l)")
        case Nil
        with None Stdout assms show ?thesis by (simp add: copy_step_def copier_of_def Let_def)
      next
        case (Cons c cs)
        show ?thesis
        proof (cases "mu l")
          case free: None
          with None Cons Stdout a b m ws show ?thesis
            by (auto simp: copy_step_def copier_of_def set_copier_def lw_inv_def in_progress_def Let_def)
        next
          case (Some h)
          with None Cons Stdout assms show ?thesis by (simp add: copy_step_def copier_of_def Let_def)
        qed
      qed
    next
      case (Some cur)
      obtain taken rest where cur: "cur = (taken, rest)" by (cases cur)
      from Some m have held: "mu l = Some Stdout" "current (stderr_copy l) = None"
        by (auto split: option.splits stream.splits)
      from held Some cur ws have w: "written l = concat ws @ taken"
        by (simp add: in_progress_def copier_of_def)
      show ?thesis
      proof (cases rest)
        case Nil
        have "ws @ [taken] \<in> shuffles (finished (stdout_copy l) @ [taken]) (finished (stderr_copy l))"
          using ws(1) by (rule snoc_in_shuffles_left)
        moreover have "written l = concat (ws @ [taken])" using w by simp
        ultimately have "\<exists>ws'\<in>shuffles (finished (stdout_copy l) @ [taken]) (finished (stderr_copy l)).
            written l = concat ws'"
          by blast
        then show ?thesis
          using Some cur Nil Stdout a b held
          by (auto simp: copy_step_def copier_of_def set_copier_def lw_inv_def in_progress_def Let_def)
      next
        case (Cons x xs)
        with Some cur Stdout a b held ws(1) w show ?thesis
          by (auto simp: copy_step_def copier_of_def set_copier_def lw_inv_def in_progress_def Let_def)
      qed
    qed
  next
    case Stderr
    show ?thesis
    proof (cases "current (stderr_copy l)")
      case None
      show ?thesis
      proof (cases "pending (stderr_copy l)")
        case Nil
        with None Stderr assms show ?thesis by (simp add: copy_step_def copier_of_def Let_def)
      next
        case (Cons c cs)
        show ?thesis
        proof (cases "mu l")
          case free: None
          with None Cons Stderr a b m ws show ?thesis
            by (auto simp: copy_step_def copier_of_def set_copier_def lw_inv_def in_progress_def Let_def)
        next
          case (Some h)
          with None Cons Stderr assms show ?thesis by (simp add: copy_step_def copier_of_def Let_def)
        qed
      qed
    next
      case (Some cur)
      obtain taken rest where cur: "cur = (taken, rest)" by (cases cur)
      from Some m have held: "mu l = Some Stderr" "current (stdout_copy l) = None"
        by (auto split: option.splits stream.splits)
      from held Some cur ws have w: "written l = concat ws @ taken"
        by (simp add: in_progress_def copier_of_def)
      show ?thesis
      proof (cases rest)
        case Nil
        have "ws @ [taken] \<in> shuffles (finished (stdout_copy l)) (finished (stderr_copy l) @ [taken])"
          using ws(1) by (rule snoc_in_shuffles_right)
        moreover have "written l = concat (ws @ [taken])" using w by simp
        ultimately have "\<exists>ws'\<in>shuffles (finished (stdout_copy l)) (finished (stderr_copy l) @ [taken]).
            written l = concat ws'"
          by blast
        then show ?thesis
          using Some cur Nil Stderr a b held
          by (auto simp: copy_step_def copier_of_def set_copier_def lw_inv_def in_progress_def Let_def)
      next
        case (Cons x xs)
        with Some cur Stderr a b held ws(1) w show ?thesis
          by (auto simp: copy_step_def copier_of_def set_copier_def lw_inv_def in_progress_def Let_def)
      qed
    qed
  qed
qed

lemma lw_inv_interleave:
  "lw_inv A B l \<Longrightarrow> lw_inv A B (interleave schedule l)"
  unfolding interleave_def
  by (induction schedule arbitrary: l) (simp_all add: lw_inv_step)

lemma lw_inv_done:
  assumes "lw_inv A B l"
    and "current (stdout_copy l) = None" "pending (stdout_copy l) = []"
    and "current (stderr_copy l) = None" "pending (stderr_copy l) = []"
  shows "written l \<in> concat ` shuffles A B"
proof -
  from assms have fin: "finished (stdout_copy l) = A" "finished (stderr_copy l) = B"
    by (simp_all add: lw_inv_def)
  from assms have "in_progress l = []"
    by (auto simp: in_progress_def copier_of_def split: option.splits stream.splits)
  with assms(1) fin show ?thesis by (auto simp: lw_inv_def)
qed

lemma startProc_goroutines:
  assumes "fst (startProc os p argv w) = Ok"
  shows "\<exists>c pid. Process c = Some pid
           \<and> new_events w (snd (snd (startProc os p argv w))) =
               map (Pair (now w))
                 [Started c,
                  Go (Copy Stdout pid (LockingWriter (next_alloc w) (View p))),
                  Go (Copy Stderr pid (LockingWriter (next_alloc w) (View p))),
                  Go (ExitNotice pid (ViewWriter (View p)))]"
  using assms
  by (auto simp: startProc_def Let_def alloc_def new_events_def split: list.splits sum.splits)

lemma reloadProc_notice:
  assumes "Argv p \<noteq> []"
  shows "(now (snd (reloadProc os (Some p) w)), Fprintf (View p) (msg_starting p))
           \<in> set (new_events w (snd (reloadProc os (Some p) w)))"
proof -
  let ?w1 = "reload_stop os p w"
  let ?w2 = "emit (Fprintf (View p) (msg_starting p)) ?w1"
  obtain e1 where e1: "trace ?w1 = trace w @ e1"
    using reload_stop_appends [of os p w] by blast
  obtain e3 where e3: "trace (snd (snd (startProc os p (Argv p) ?w2))) = trace ?w2 @ e3"
    using startProc_appends [of os p "Argv p" ?w2] by blast
  have "trace (snd (reloadProc os (Some p) w))
          = trace w @ (e1 @ (now ?w1, Fprintf (View p) (msg_starting p)) # e3)"
    using e1 e3 by (simp add: reloadProc_run [OF assms])
  moreover have "now (snd (reloadProc os (Some p) w)) = now ?w1"
    by (simp add: reloadProc_run [OF assms])
  ultimately show ?thesis by (simp add: new_events_def)
qed

text \<open>
  Claim C7, as the code has it. A successful \<open>startProc\<close> starts exactly three goroutines:
  the two copiers, which write through one and the same \<open>lockingWriter\<close> made for this
  start, and the exit notice, which writes to the view itself; \<open>reloadProc\<close> too prints
  its notices to the view itself. For the two copiers the mutex does what the claim says:
  under every schedule, and with an inner writer that takes one byte at a time, what the
  inner writer has received is a sequence of whole chunks, each stream's chunks in their
  own order, followed by the part taken so far of the one chunk in progress; and once both
  copiers are done it is the concatenation of an interleaving of whole chunks.
\<close>

theorem locking_writer_atomic:
  "(fst (startProc os p argv w) = Ok \<longrightarrow>
      (\<exists>c pid. Process c = Some pid
         \<and> new_events w (snd (snd (startProc os p argv w))) =
             map (Pair (now w))
               [Started c,
                Go (Copy Stdout pid (LockingWriter (next_alloc w) (View p))),
                Go (Copy Stderr pid (LockingWriter (next_alloc w) (View p))),
                Go (ExitNotice pid (ViewWriter (View p)))]))
   \<and> (Argv p \<noteq> [] \<longrightarrow>
        (now (snd (reloadProc os (Some p) w)), Fprintf (View p) (msg_starting p))
          \<in> set (new_events w (snd (reloadProc os (Some p) w))))
   \<and> (let l = interleave schedule (new_lockingWriter A B) in
        (\<exists>ws\<in>shuffles (finished (stdout_copy l)) (finished (stderr_copy l)).
            written l = concat ws @ in_progress l)
        \<and> finished (stdout_copy l) @ chunk_of (current (stdout_copy l)) @ pending (stdout_copy l) = A
        \<and> finished (stderr_copy l) @ chunk_of (current (stderr_copy l)) @ pending (stderr_copy l) = B
        \<and> (current (stdout_copy l) = None \<and> pending (stdout_copy l) = []
             \<and> current (stderr_copy l) = None \<and> pending (stderr_copy l) = []
           \<longrightarrow> written l \<in> concat ` shuffles A B))"
proof -
  let ?l = "interleave schedule (new_lockingWriter A B)"
  have inv: "lw_inv A B ?l"
    using lw_inv_new by (rule lw_inv_interleave)
  then have "(\<exists>ws\<in>shuffles (finished (stdout_copy ?l)) (finished (stderr_copy ?l)).
            written ?l = concat ws @ in_progress ?l)
        \<and> finished (stdout_copy ?l) @ chunk_of (current (stdout_copy ?l)) @ pending (stdout_copy ?l) = A
        \<and> finished (stderr_copy ?l) @ chunk_of (current (stderr_copy ?l)) @ pending (stderr_copy ?l) = B"
    by (simp add: lw_inv_def)
  moreover have "current (stdout_copy ?l) = None \<and> pending (stdout_copy ?l) = []
             \<and> current (stderr_copy ?l) = None \<and> pending (stderr_copy ?l) = []
           \<longrightarrow> written ?l \<in> concat ` shuffles A B"
    using lw_inv_done [OF inv] by blast
  ultimately show ?thesis
    using startProc_goroutines [of os p argv w] reloadProc_notice [of p os w]
    by (simp add: Let_def)
qed

lemma example_w_trace:
  "trace example_w =
     [(0, Sleep (120 * Millisecond)),
      (120 * Millisecond, Started (example_cmd ''A'' ''a'' 4001)),
      (120 * Millisecond, Go (Copy Stdout 4001 (LockingWriter 11 1))),
      (120 * Millisecond, Go (Copy Stderr 4001 (LockingWriter 11 1))),
      (120 * Millisecond, Go (ExitNotice 4001 (ViewWriter 1))),
      (120 * Millisecond, Started (example_cmd ''B'' ''bb'' 4002)),
      (120 * Millisecond, Go (Copy Stdout 4002 (LockingWriter 12 3))),
      (120 * Millisecond, Go (Copy Stderr 4002 (LockingWriter 12 3))),
      (120 * Millisecond, Go (ExitNotice 4002 (ViewWriter 3))),
      (120 * Millisecond, Started (example_cmd ''C'' ''ccc'' 4003)),
      (120 * Millisecond, Go (Copy Stdout 4003 (LockingWriter 13 5))),
      (120 * Millisecond, Go (Copy Stderr 4003 (LockingWriter 13 5))),
      (120 * Millisecond, Go (ExitNotice 4003 (ViewWriter 5)))]"
  unfolding example_w_def example_started_def startup_def example_idle_eq example_procs_eq
    example_argvs_eq
  by (simp add: startProc_def command_def Let_def alloc_def sleep_def emit_def Second_def
      Millisecond_def example_cmd_def)

lemma example_interleaved:
  "interleave example_schedule (new_lockingWriter [''ab''] [''XY'']) =
     \<lparr>mu = None, written = ''abXY'',
      stdout_copy = \<lparr>finished = [''ab''], current = None, pending = []\<rparr>,
      stderr_copy = \<lparr>finished = [''XY''], current = None, pending = []\<rparr>\<rparr>"
  by (simp add: interleave_def example_schedule_def new_lockingWriter_def copy_step_def
      copier_of_def set_copier_def Let_def)

theorem locking_writer_atomic_witness:
  "fst (startProc example_os example_B (Argv example_B) example_w) = Ok
   \<and> Argv example_B \<noteq> []
   \<and> current (stdout_copy (interleave example_schedule (new_lockingWriter [''ab''] [''XY'']))) = None
   \<and> pending (stdout_copy (interleave example_schedule (new_lockingWriter [''ab''] [''XY'']))) = []
   \<and> current (stderr_copy (interleave example_schedule (new_lockingWriter [''ab''] [''XY'']))) = None
   \<and> pending (stderr_copy (interleave example_schedule (new_lockingWriter [''ab''] [''XY'']))) = []
   \<and> written (interleave example_schedule (new_lockingWriter [''ab''] [''XY'']))
        \<in> concat ` shuffles [''ab''] [''XY'']
   \<and> (now (snd (reloadProc example_os (Some example_B) example_w)),
        Fprintf (View example_B) (msg_starting example_B))
        \<in> set (new_events example_w (snd (reloadProc example_os (Some example_B) example_w)))"
proof -
  have ok: "fst (startProc example_os example_B (Argv example_B) example_w) = Ok"
    by (rule startProc_ok(1) [where pid = 4002])
       (simp_all add: example_B_eq command_def example_w_now Second_def Millisecond_def)
  have a: "Argv example_B \<noteq> []" by (simp add: example_B_eq)
  have fin: "current (stdout_copy (interleave example_schedule (new_lockingWriter [''ab''] [''XY'']))) = None"
    "pending (stdout_copy (interleave example_schedule (new_lockingWriter [''ab''] [''XY'']))) = []"
    "current (stderr_copy (interleave example_schedule (new_lockingWriter [''ab''] [''XY'']))) = None"
    "pending (stderr_copy (interleave example_schedule (new_lockingWriter [''ab''] [''XY'']))) = []"
    by (simp_all add: example_interleaved)
  show ?thesis
    using locking_writer_atomic [of example_os example_B "Argv example_B" example_w
        example_schedule "[''ab'']" "[''XY'']"] ok a fin
    by (simp add: Let_def)
qed

text \<open>The claim as the specification states it fails for the notices: in the worked
  configuration the copiers of pane \<open>B\<close> write through the locking writer with mutex 12,
  the exit notice of the same process writes to view 3 itself, and so does the first
  notice of a reload.\<close>

theorem locking_writer_atomic_counterexample:
  "(120 * Millisecond, Go (Copy Stdout 4002 (LockingWriter 12 3))) \<in> set (trace example_w)
   \<and> (120 * Millisecond, Go (Copy Stderr 4002 (LockingWriter 12 3))) \<in> set (trace example_w)
   \<and> (120 * Millisecond, Go (ExitNotice 4002 (ViewWriter 3))) \<in> set (trace example_w)
   \<and> ViewWriter 3 \<noteq> LockingWriter 12 3
   \<and> (2270 * Millisecond, Fprintf 3 (msg_starting example_B))
        \<in> set (new_events example_w (snd (reloadProc example_os (Some example_B) example_w)))"
proof -
  have "(now (snd (reloadProc example_os (Some example_B) example_w)),
        Fprintf (View example_B) (msg_starting example_B))
        \<in> set (new_events example_w (snd (reloadProc example_os (Some example_B) example_w)))"
    by (rule reloadProc_notice) (simp add: example_B_eq)
  moreover have "View example_B = 3" by (simp add: example_B_eq)
  ultimately have "(2270 * Millisecond, Fprintf 3 (msg_starting example_B))
        \<in> set (new_events example_w (snd (reloadProc example_os (Some example_B) example_w)))"
    by (simp add: example_B_restart(1))
  then show ?thesis by (simp add: example_w_trace)
qed

subsection \<open>No panic and distinct views, from \<open>main\<close> on\<close>

lemma makeProcsFromSpecs_rev1_loop_distinct:
  "makeProcsFromSpecs_rev1_loop ss procs argvs w = (procs', argvs', w')
     \<Longrightarrow> distinct (map View procs) \<Longrightarrow> \<forall>p\<in>set procs. View p < next_alloc w
     \<Longrightarrow> distinct (map View procs') \<and> (\<forall>p\<in>set procs'. View p < next_alloc w')"
proof (induction ss arbitrary: procs argvs w)
  case Nil
  then show ?case by simp
next
  case (Cons s ss)
  let ?p = "\<lparr>Name = Name_s s, Dir = Dir_s s, Cmd = None, View = next_alloc w,
             Container = None,
             Follow = (case Follow_s s of None \<Rightarrow> True | Some b \<Rightarrow> b),
             Argv = []\<rparr>"
  let ?w = "w\<lparr>next_alloc := Suc (next_alloc w)\<rparr>"
  from Cons.prems(1)
  have run: "makeProcsFromSpecs_rev1_loop ss (procs @ [?p]) (argvs @ [[Cmd_s s] @ Args_s s]) ?w
               = (procs', argvs', w')"
    by (simp add: alloc_def Let_def)
  have d: "distinct (map View (procs @ [?p]))"
    using Cons.prems(2,3) by auto
  have b: "\<forall>p\<in>set (procs @ [?p]). View p < next_alloc ?w"
    using Cons.prems(3) by (auto simp: less_Suc_eq)
  from Cons.IH [OF run d b] show ?case .
qed

lemma makeProcsFromSpecs_rev1_distinct:
  "makeProcsFromSpecs_rev1 specs w = (procs, argvs, w') \<Longrightarrow> distinct (map View procs)"
  using makeProcsFromSpecs_rev1_loop_distinct [of specs "[]" "[]" w procs argvs w']
  by (simp add: makeProcsFromSpecs_rev1_def)

text \<open>Both revisions give every handle its argument vector, and none is empty: it
  begins with the command.\<close>

lemma makeProcsFromSpecs_rev1_loop_argvs:
  "makeProcsFromSpecs_rev1_loop ss procs argvs w = (procs', argvs', w')
     \<Longrightarrow> length argvs = length procs \<Longrightarrow> [] \<notin> set argvs
     \<Longrightarrow> length argvs' = length procs' \<and> [] \<notin> set argvs'"
proof (induction ss arbitrary: procs argvs w)
  case Nil
  then show ?case by simp
next
  case (Cons s ss)
  from Cons.prems show ?case
    by (auto simp: alloc_def Let_def split: prod.splits dest!: Cons.IH)
qed

lemma makeProcsFromSpecs_rev2_loop_argvs:
  "makeProcsFromSpecs_rev2_loop ss procs argvs w = (procs', argvs', w')
     \<Longrightarrow> length argvs = length procs \<Longrightarrow> [] \<notin> set argvs
     \<Longrightarrow> length argvs' = length procs' \<and> [] \<notin> set argvs'"
proof (induction ss arbitrary: procs argvs w)
  case Nil
  then show ?case by simp
next
  case (Cons s ss)
  from Cons.prems show ?case
    by (auto simp: alloc_def Let_def split: prod.splits dest!: Cons.IH)
qed

lemma startProc_no_panic: "argv \<noteq> [] \<Longrightarrow> fst (startProc os p argv w) \<noteq> Panic"
  by (auto simp: startProc_def Let_def alloc_def split: list.splits sum.splits)

lemma startAll_sound:
  "length argvs = length procs \<Longrightarrow> [] \<notin> set argvs
     \<Longrightarrow> startAll os procs argvs w = (panicked, procs', w')
     \<Longrightarrow> \<not> panicked \<and> map View procs' = map View procs"
proof (induction procs arbitrary: argvs w panicked procs' w')
  case Nil
  then show ?case by simp
next
  case (Cons p ps)
  from Cons.prems(1) obtain argv rest where argvs: "argvs = argv # rest"
    by (cases argvs) auto
  with Cons.prems(2) have ne: "argv \<noteq> []" by auto
  obtain r p1 w1 where sp: "startProc os p argv w = (r, p1, w1)"
    by (cases "startProc os p argv w")
  with ne have r: "r \<noteq> Panic" using startProc_no_panic [of argv os p w] by simp
  obtain b ps1 w2 where sa: "startAll os ps rest w1 = (b, ps1, w2)"
    by (cases "startAll os ps rest w1")
  from Cons.prems(1,2) argvs have "\<not> b \<and> map View ps1 = map View ps"
    using Cons.IH [OF _ _ sa] by simp
  moreover from sp have "View p1 = View p"
    by (metis startProc_frame proc.select_convs(4) proc.surjective proc.update_convs(3))
  moreover from Cons.prems(3) argvs sp sa r have "panicked = b" "procs' = p1 # ps1"
    by (cases r; simp)+
  ultimately show ?case by simp
qed

lemma run_distinct:
  "distinct (map View (app_procs a)) \<Longrightarrow> distinct (map View (app_procs (run rv os keys a)))"
  by (induction keys arbitrary: a) (simp_all add: handleKey_distinct)

lemma supervise_no_crash:
  assumes "length argvs = length procs" "[] \<notin> set argvs"
  shows "fst (supervise rv os useDividers procs argvs keys w) \<noteq> Crash"
proof -
  let ?a = "attach useDividers procs w"
  have p: "app_procs ?a = procs" by (simp add: attach_def Let_def split: prod.splits)
  obtain b ps w' where sa: "startAll os procs argvs (sleep os (120 * Millisecond) (app_world ?a)) = (b, ps, w')"
    by (cases "startAll os procs argvs (sleep os (120 * Millisecond) (app_world ?a))")
  from startAll_sound [OF assms sa] have "\<not> b" by simp
  with sa p show ?thesis
    by (simp add: supervise_def startup_def Let_def split: option.splits)
qed

lemma main_rev2_no_crash: "fst (main_rev2 os loaded keys w) \<noteq> Crash"
proof (cases loaded)
  case (Inl err)
  then show ?thesis by (simp add: main_rev2_def alloc_def)
next
  case (Inr cfg)
  obtain procs argvs w2 where m: "makeProcsFromSpecs_rev2 (Processes cfg) (snd (alloc w)) = (procs, argvs, w2)"
    by (cases "makeProcsFromSpecs_rev2 (Processes cfg) (snd (alloc w))")
  then have "length argvs = length procs \<and> [] \<notin> set argvs"
    using makeProcsFromSpecs_rev2_loop_argvs [of "Processes cfg" "[]" "[]" "snd (alloc w)" procs argvs w2]
    by (simp add: makeProcsFromSpecs_rev2_def)
  then have "fst (supervise Rev2 os (Dividers cfg) procs argvs keys w2) \<noteq> Crash"
    by (intro supervise_no_crash) simp_all
  with Inr m show ?thesis by (simp add: main_rev2_def alloc_def)
qed

lemma main_rev1_no_crash: "fst (main_rev1 os loaded keys w) \<noteq> Crash"
proof (cases loaded)
  case (Inl err)
  then show ?thesis by (simp add: main_rev1_def alloc_def)
next
  case (Inr specs)
  obtain procs argvs w2 where m: "makeProcsFromSpecs_rev1 specs (snd (alloc w)) = (procs, argvs, w2)"
    by (cases "makeProcsFromSpecs_rev1 specs (snd (alloc w))")
  then have "length argvs = length procs \<and> [] \<notin> set argvs"
    using makeProcsFromSpecs_rev1_loop_argvs [of specs "[]" "[]" "snd (alloc w)" procs argvs w2]
    by (simp add: makeProcsFromSpecs_rev1_def)
  then have "fst (supervise Rev1 os False procs argvs keys w2) \<noteq> Crash"
    by (intro supervise_no_crash) simp_all
  with Inr m show ?thesis by (simp add: main_rev1_def alloc_def)
qed

text \<open>Every state the event loop passes through, in either revision, has distinct views:
  the handles come from \<open>makeProcsFromSpecs\<close>, the start-up goroutine assigns \<open>Cmd\<close> only,
  and every key keeps the views distinct.\<close>

lemma startup_views:
  assumes "length argvs = length (app_procs a)" "[] \<notin> set argvs"
  shows "map View (app_procs (snd (startup os argvs a))) = map View (app_procs a)"
proof -
  obtain b ps w' where sa:
    "startAll os (app_procs a) argvs (sleep os (120 * Millisecond) (app_world a)) = (b, ps, w')"
    by (cases "startAll os (app_procs a) argvs (sleep os (120 * Millisecond) (app_world a))")
  from startAll_sound [OF assms sa] have "map View ps = map View (app_procs a)" by simp
  with sa show ?thesis by (simp add: startup_def)
qed

lemma event_loop_distinct:
  assumes "makeProcsFromSpecs_rev2 specs w = (procs, argvs, w')
           \<or> makeProcsFromSpecs_rev1 specs w = (procs, argvs, w')"
  shows "distinct (map View (app_procs (run rv os keys (snd (startup os argvs (attach d procs w'))))))"
proof -
  let ?a = "attach d procs w'"
  have p: "app_procs ?a = procs" by (simp add: attach_def Let_def split: prod.splits)
  from assms have d: "distinct (map View procs)"
    using makeProcsFromSpecs_rev2_distinct makeProcsFromSpecs_rev1_distinct by blast
  from assms have "length argvs = length procs \<and> [] \<notin> set argvs"
    using makeProcsFromSpecs_rev2_loop_argvs [of specs "[]" "[]" w procs argvs w']
      makeProcsFromSpecs_rev1_loop_argvs [of specs "[]" "[]" w procs argvs w']
    by (auto simp: makeProcsFromSpecs_rev2_def makeProcsFromSpecs_rev1_def)
  then have "map View (app_procs (snd (startup os argvs ?a))) = map View procs"
    using startup_views [of argvs ?a os] p by simp
  with d have "distinct (map View (app_procs (snd (startup os argvs ?a))))" by simp
  then show ?thesis by (rule run_distinct)
qed

subsection \<open>The worked configuration, from start to exit\<close>

text \<open>The second revision of \<open>main\<close> on the three declarations, with the operator moving
  the focus nowhere and quitting: the children are started at 120 ms and, on quit, each
  process group gets \<open>SIGTERM\<close>, then after one 2 s sleep \<open>SIGKILL\<close>.\<close>

lemma example_session:
  "fst (main_rev2 example_os (Inr \<lparr>Processes = example_specs, Borders = False, Dividers = True\<rparr>)
          [KeyTAB, KeyRune (CHR ''q'')] example_boot) = Return"
  "trace (snd (main_rev2 example_os (Inr \<lparr>Processes = example_specs, Borders = False, Dividers = True\<rparr>)
          [KeyTAB, KeyRune (CHR ''q'')] example_boot))
     = trace example_w @
       [(120 * Millisecond, Kill (- 4001) SIGTERM), (120 * Millisecond, Kill (- 4002) SIGTERM),
        (120 * Millisecond, Kill (- 4003) SIGTERM), (120 * Millisecond, Sleep (2 * Second)),
        (2120 * Millisecond, Kill (- 4001) SIGKILL), (2120 * Millisecond, Kill (- 4002) SIGKILL),
        (2120 * Millisecond, Kill (- 4003) SIGKILL)]"
proof -
  let ?cfg = "\<lparr>Processes = example_specs, Borders = False, Dividers = True\<rparr>"
  let ?keys = "[KeyTAB, KeyRune (CHR ''q'')]"
  have made: "makeProcsFromSpecs_rev2 example_specs \<lparr>now = 0, trace = [], next_alloc = Suc 0\<rparr>
      = (example_procs, example_argvs, \<lparr>now = 0, trace = [], next_alloc = 7\<rparr>)"
    using example_made by (simp add: example_world_def example_procs_eq example_argvs_eq)
  have main: "main_rev2 example_os (Inr ?cfg) ?keys example_boot
      = supervise Rev2 example_os True example_procs example_argvs ?keys
          \<lparr>now = 0, trace = [], next_alloc = 7\<rparr>"
    by (simp add: main_rev2_def alloc_def example_boot_def made)
  have idle: "attach True example_procs \<lparr>now = 0, trace = [], next_alloc = 7\<rparr> = example_idle"
    by (simp add: example_idle_def example_made)
  have st: "startup example_os example_argvs example_idle = (False, example_started)"
  proof -
    have "length example_argvs = length (app_procs example_idle)" "[] \<notin> set example_argvs"
      by (simp_all add: example_argvs_eq example_idle_eq example_procs_eq)
    then have "\<not> fst (startup example_os example_argvs example_idle)"
      using startAll_sound [of example_argvs "app_procs example_idle" example_os
          "sleep example_os (120 * Millisecond) (app_world example_idle)"]
      by (auto simp: startup_def split: prod.splits)
    then show ?thesis by (simp add: example_started_def prod_eq_iff)
  qed
  have idx: "focusedProcIndex (app_focus example_started) (app_procs example_started) = - 1"
    by (simp add: example_started_eq focusedProcIndex_def)
  have rn: "run Rev2 example_os ?keys example_started = example_started\<lparr>app_stopped := True\<rparr>"
  proof -
    have "app_stopped example_started = False"
      unfolding example_started_def startup_def example_idle_eq
      by (simp split: prod.splits)
    then show ?thesis by (simp add: handleKey_def Let_def idx)
  qed
  have sup: "main_rev2 example_os (Inr ?cfg) ?keys example_boot
      = (Return, shutdown example_os (app_procs example_started) example_w)"
    unfolding main supervise_def Let_def idle
    by (simp add: st rn example_w_def del: run.simps)
  show "fst (main_rev2 example_os (Inr ?cfg) ?keys example_boot) = Return"
    by (simp add: sup)
  have ext: "trace (shutdown example_os (app_procs example_started) example_w)
      = trace example_w @ new_events example_w (shutdown example_os (app_procs example_started) example_w)"
    by (simp add: new_events_def shutdown_def killAll_trace)
  have new: "new_events example_w (shutdown example_os (app_procs example_started) example_w) =
       map (Pair (now example_w))
         (concat (map (\<lambda>p. delivered example_os p SIGTERM) (app_procs example_started)))
     @ [(now example_w, Sleep (2 * Second))]
     @ map (Pair (now example_w + 2 * Second + oversleep example_os (now example_w)))
         (concat (map (\<lambda>p. delivered example_os p SIGKILL) (app_procs example_started)))"
    by (simp add: shutdown_def killAll_trace new_events_def)
  have three: "app_procs example_started
      = [app_procs example_started ! 0, app_procs example_started ! 1, app_procs example_started ! 2]"
    by (simp add: example_started_eq)
  have "new_events example_w (shutdown example_os (app_procs example_started) example_w) =
       [(120 * Millisecond, Kill (- 4001) SIGTERM), (120 * Millisecond, Kill (- 4002) SIGTERM),
        (120 * Millisecond, Kill (- 4003) SIGTERM), (120 * Millisecond, Sleep (2 * Second)),
        (2120 * Millisecond, Kill (- 4001) SIGKILL), (2120 * Millisecond, Kill (- 4002) SIGKILL),
        (2120 * Millisecond, Kill (- 4003) SIGKILL)]"
    unfolding new by (subst (1 2) three) (simp add: example_delivered example_w_now Second_def Millisecond_def)
  with ext sup show "trace (snd (main_rev2 example_os (Inr ?cfg) ?keys example_boot))
     = trace example_w @
       [(120 * Millisecond, Kill (- 4001) SIGTERM), (120 * Millisecond, Kill (- 4002) SIGTERM),
        (120 * Millisecond, Kill (- 4003) SIGTERM), (120 * Millisecond, Sleep (2 * Second)),
        (2120 * Millisecond, Kill (- 4001) SIGKILL), (2120 * Millisecond, Kill (- 4002) SIGKILL),
        (2120 * Millisecond, Kill (- 4003) SIGKILL)]"
    by simp
qed

end
